theory Spec2Isabelle
  imports Complex_Main "HOL-Library.Sublist"
begin

section \<open>JavaScript strings and values\<close>

text \<open>
  A JavaScript string is a sequence of UTF-16 code units.  The model uses \<^typ>\<open>string\<close>: a
  \<^typ>\<open>char\<close> stands for a code unit below 256 (the Latin-1 range), and \<open>of_char\<close> is its
  numeric value.  Story texts outside that range are not covered.
\<close>

text \<open>
  The relational operator \<open><\<close> on two strings: the shorter string is smaller when it is a
  prefix of the other; otherwise the first differing code unit decides.
\<close>

fun str_lt :: "string \<Rightarrow> string \<Rightarrow> bool" where
  "str_lt [] [] = False"
| "str_lt [] (y # ys) = True"
| "str_lt (x # xs) [] = False"
| "str_lt (x # xs) (y # ys) =
     (if (of_char x :: nat) < of_char y then True
      else if (of_char y :: nat) < of_char x then False
      else str_lt xs ys)"

text \<open>\<open>a >= b\<close> on strings is the negation of \<open>a < b\<close>.\<close>

definition str_ge :: "string \<Rightarrow> string \<Rightarrow> bool" where
  "str_ge a b = (\<not> str_lt a b)"

text \<open>\<open>s.startsWith(p)\<close>.\<close>

definition startsWith :: "string \<Rightarrow> string \<Rightarrow> bool" where
  "startsWith s p = (take (length p) s = p)"

text \<open>\<open>s.split(sep)[0]\<close> for a one-character separator: the text before its first occurrence.\<close>

definition split_head :: "char \<Rightarrow> string \<Rightarrow> string" where
  "split_head sep s = takeWhile (\<lambda>c. c \<noteq> sep) s"

text \<open>
  The white space of the regular expression class \<open>\s\<close> and of \<open>parseInt\<close>, below code unit
  256: tab, line feed, vertical tab, form feed, carriage return, space, no-break space.
\<close>

definition is_space :: "char \<Rightarrow> bool" where
  "is_space c = ((of_char c :: nat) \<in> {9, 10, 11, 12, 13, 32, 160})"

text \<open>
  \<open>toLowerCase\<close> on one code unit below 256: \<open>A\<close>..\<open>Z\<close> and the accented capitals
  U+00C0..U+00DE (without the multiplication sign U+00D7) move up by 32.
\<close>

definition lower_char :: "char \<Rightarrow> char" where
  "lower_char c =
     (let n = (of_char c :: nat) in
      if (65 \<le> n \<and> n \<le> 90) \<or> (192 \<le> n \<and> n \<le> 222 \<and> n \<noteq> 215)
      then char_of (n + 32) else c)"

definition toLowerCase :: "string \<Rightarrow> string" where
  "toLowerCase s = map lower_char s"

text \<open>
  A field of a parsed JSON object that may be missing: reading it gives \<open>undefined\<close> when
  the key is absent, \<open>null\<close>, or a string.
\<close>

datatype jsval = JUndefined | JNull | JString string

text \<open>String conversion, as a template literal \<open>${x}\<close> performs it.\<close>

fun toString :: "jsval \<Rightarrow> string" where
  "toString JUndefined = ''undefined''"
| "toString JNull = ''null''"
| "toString (JString s) = s"

text \<open>\<open>x || d\<close> for a string default \<open>d\<close>: \<open>undefined\<close>, \<open>null\<close> and the empty string are falsy.\<close>

fun or_else :: "jsval \<Rightarrow> string \<Rightarrow> string" where
  "or_else JUndefined d = d"
| "or_else JNull d = d"
| "or_else (JString s) d = (if s = [] then d else s)"

text \<open>\<open>x === v\<close> for a string \<open>v\<close>.\<close>

fun strict_eq :: "jsval \<Rightarrow> string \<Rightarrow> bool" where
  "strict_eq (JString s) v = (s = v)"
| "strict_eq _ v = False"

text \<open>\<open>!!x\<close>.\<close>

fun truthy :: "jsval \<Rightarrow> bool" where
  "truthy (JString s) = (s \<noteq> [])"
| "truthy _ = False"

section \<open>Stories\<close>

record story =
  title :: string
  link :: string
  pubDate :: string
  source :: string
  district :: jsval
  category :: jsval
  summary :: string

section \<open>Dates\<close>

text \<open>
  A Date object holds a time value: milliseconds since 1970-01-01T00:00:00Z, or NaN (here
  \<open>None\<close>, an Invalid Date).  The functions below are those of the ECMAScript
  specification, under its names.
\<close>

definition msPerDay :: int where
  "msPerDay = 86400000"

definition Day :: "int \<Rightarrow> int" where
  "Day t = t div msPerDay"

definition TimeWithinDay :: "int \<Rightarrow> int" where
  "TimeWithinDay t = t mod msPerDay"

definition DaysInYear :: "int \<Rightarrow> int" where
  "DaysInYear y =
     (if y mod 4 \<noteq> 0 then 365
      else if y mod 100 \<noteq> 0 then 366
      else if y mod 400 \<noteq> 0 then 365
      else 366)"

definition DayFromYear :: "int \<Rightarrow> int" where
  "DayFromYear y =
     365 * (y - 1970) + (y - 1969) div 4 - (y - 1901) div 100 + (y - 1601) div 400"

lemma div_succ:
  fixes x k :: int
  assumes "0 < k"
  shows "(x + 1) div k = x div k + (if (x + 1) mod k = 0 then 1 else 0)"
proof (cases "(x + 1) mod k = 0")
  case True
  then obtain q where q: "x + 1 = k * q" by (auto simp: mod_eq_0_iff_dvd)
  then have x: "x = k * (q - 1) + (k - 1)" by (simp add: algebra_simps)
  have "x div k = q - 1"
    by (subst x) (use assms in \<open>simp add: div_pos_pos_trivial\<close>)
  moreover have "(x + 1) div k = q" using q assms by simp
  ultimately show ?thesis using True by simp
next
  case False
  define r where "r = x mod k"
  define q where "q = x div k"
  have x: "x = k * q + r" by (simp add: r_def q_def)
  have r: "0 \<le> r" "r < k" using assms by (simp_all add: r_def)
  have "r + 1 \<noteq> k"
  proof
    assume "r + 1 = k"
    then have "x + 1 = k * (q + 1)" using x by (simp add: algebra_simps)
    then have "(x + 1) mod k = 0" by simp
    with False show False by simp
  qed
  with r have r1: "0 \<le> r + 1" "r + 1 < k" by simp_all
  have "x + 1 = k * q + (r + 1)" using x by simp
  then have "(x + 1) div k = q + (r + 1) div k" using assms
    by (metis add.commute div_mult_self2 less_irrefl)
  then have "(x + 1) div k = q" using r1 by (simp add: div_pos_pos_trivial)
  then show ?thesis using False by (simp add: q_def)
qed

lemma mod_shift:
  fixes y :: int
  shows "(y - k * c) mod k = y mod k"
proof -
  have "y - k * c = y + k * (- c)" by simp
  then show ?thesis by (metis mod_mult_self2)
qed

lemma leap_mods:
  fixes y :: int
  shows "(y - 1968) mod 4 = 0 \<longleftrightarrow> y mod 4 = 0"
    and "(y - 1900) mod 100 = 0 \<longleftrightarrow> y mod 100 = 0"
    and "(y - 1600) mod 400 = 0 \<longleftrightarrow> y mod 400 = 0"
    and "y mod 100 = 0 \<Longrightarrow> y mod 4 = 0"
    and "y mod 400 = 0 \<Longrightarrow> y mod 100 = 0"
proof -
  show "(y - 1968) mod 4 = 0 \<longleftrightarrow> y mod 4 = 0"
    using mod_shift [of y 4 492] by simp
  show "(y - 1900) mod 100 = 0 \<longleftrightarrow> y mod 100 = 0"
    using mod_shift [of y 100 19] by simp
  show "(y - 1600) mod 400 = 0 \<longleftrightarrow> y mod 400 = 0"
    using mod_shift [of y 400 4] by simp
  show "y mod 100 = 0 \<Longrightarrow> y mod 4 = 0"
  proof -
    assume "y mod 100 = 0"
    then have "100 dvd y" by (simp add: mod_eq_0_iff_dvd)
    moreover have "(4::int) dvd 100" by simp
    ultimately have "4 dvd y" by (rule dvd_trans [rotated])
    then show ?thesis by (simp add: mod_eq_0_iff_dvd)
  qed
  show "y mod 400 = 0 \<Longrightarrow> y mod 100 = 0"
  proof -
    assume "y mod 400 = 0"
    then have "400 dvd y" by (simp add: mod_eq_0_iff_dvd)
    moreover have "(100::int) dvd 400" by simp
    ultimately have "100 dvd y" by (rule dvd_trans [rotated])
    then show ?thesis by (simp add: mod_eq_0_iff_dvd)
  qed
qed

lemma DayFromYear_step: "DayFromYear (y + 1) = DayFromYear y + DaysInYear y"
proof -
  have a: "(y + 1 - 1969) div 4 = (y - 1969) div 4 + (if y mod 4 = 0 then 1 else 0)"
    using div_succ [of 4 "y - 1969"] leap_mods(1) [of y] by (simp add: algebra_simps)
  have b: "(y + 1 - 1901) div 100 = (y - 1901) div 100 + (if y mod 100 = 0 then 1 else 0)"
    using div_succ [of 100 "y - 1901"] leap_mods(2) [of y] by (simp add: algebra_simps)
  have c: "(y + 1 - 1601) div 400 = (y - 1601) div 400 + (if y mod 400 = 0 then 1 else 0)"
    using div_succ [of 400 "y - 1601"] leap_mods(3) [of y] by (simp add: algebra_simps)
  show ?thesis
    unfolding DayFromYear_def DaysInYear_def a b c
    using leap_mods(4,5) [of y] by auto
qed

lemma DaysInYear_bounds: "365 \<le> DaysInYear y" "DaysInYear y \<le> 366"
  by (simp_all add: DaysInYear_def)

text \<open>
  \<open>YearFromTime(t)\<close> is the largest year \<open>y\<close> with \<open>DayFromYear(y) \<le> Day(t)\<close>.  It is found
  by counting up from a year that is not too large: a year has at most 366 days and at
  least 365.
\<close>

function year_search :: "int \<Rightarrow> int \<Rightarrow> int" where
  "year_search y d = (if DayFromYear (y + 1) \<le> d then year_search (y + 1) d else y)"
  by pat_completeness auto
termination
proof (relation "measure (\<lambda>(y, d). nat (d + 1 - DayFromYear (y + 1)))")
  show "wf (measure (\<lambda>(y, d). nat (d + 1 - DayFromYear (y + 1))))" by simp
next
  fix y d :: int
  assume a: "DayFromYear (y + 1) \<le> d"
  have "DayFromYear (y + 1 + 1) = DayFromYear (y + 1) + DaysInYear (y + 1)"
    by (rule DayFromYear_step)
  with DaysInYear_bounds(1) [of "y + 1"] a
  show "((y + 1, d), (y, d)) \<in> measure (\<lambda>(y, d). nat (d + 1 - DayFromYear (y + 1)))"
    by simp
qed

declare year_search.simps [simp del]

definition YearFromDay :: "int \<Rightarrow> int" where
  "YearFromDay d = year_search (1970 + (if 0 \<le> d then d div 366 else d div 365)) d"

definition YearFromTime :: "int \<Rightarrow> int" where
  "YearFromTime t = YearFromDay (Day t)"

definition DayWithinYear :: "int \<Rightarrow> int" where
  "DayWithinYear t = Day t - DayFromYear (YearFromTime t)"

text \<open>
  The day number within its year at which month \<open>m\<close> (0 = January) starts; \<open>l\<close> is 1 in a
  leap year and 0 otherwise.  \<open>month_start 12\<close> is the length of the year.
\<close>

definition month_start :: "int \<Rightarrow> int \<Rightarrow> int" where
  "month_start l m =
     (if m = 0 then 0 else if m = 1 then 31 else if m = 2 then 59 + l
      else if m = 3 then 90 + l else if m = 4 then 120 + l else if m = 5 then 151 + l
      else if m = 6 then 181 + l else if m = 7 then 212 + l else if m = 8 then 243 + l
      else if m = 9 then 273 + l else if m = 10 then 304 + l else if m = 11 then 334 + l
      else 365 + l)"

definition leap_days :: "int \<Rightarrow> int" where
  "leap_days y = DaysInYear y - 365"

definition MonthFromTime :: "int \<Rightarrow> int" where
  "MonthFromTime t =
     (let d = DayWithinYear t; l = leap_days (YearFromTime t) in
      if d < month_start l 1 then 0 else if d < month_start l 2 then 1
      else if d < month_start l 3 then 2 else if d < month_start l 4 then 3
      else if d < month_start l 5 then 4 else if d < month_start l 6 then 5
      else if d < month_start l 7 then 6 else if d < month_start l 8 then 7
      else if d < month_start l 9 then 8 else if d < month_start l 10 then 9
      else if d < month_start l 11 then 10 else 11)"

definition DateFromTime :: "int \<Rightarrow> int" where
  "DateFromTime t =
     DayWithinYear t - month_start (leap_days (YearFromTime t)) (MonthFromTime t) + 1"

text \<open>
  \<open>MakeDay(year, month, date)\<close>: the day number of the first of the month, plus \<open>date - 1\<close>;
  months outside 0..11 carry into the year.
\<close>

definition MakeDay :: "int \<Rightarrow> int \<Rightarrow> int \<Rightarrow> int" where
  "MakeDay year month date =
     (let ym = year + month div 12; mn = month mod 12 in
      DayFromYear ym + month_start (leap_days ym) mn + date - 1)"

definition MakeDate :: "int \<Rightarrow> int \<Rightarrow> int" where
  "MakeDate day time = day * msPerDay + time"

text \<open>\<open>TimeClip\<close>: a time value beyond 8.64e15 ms on either side is NaN.\<close>

definition TimeClip :: "int \<Rightarrow> int option" where
  "TimeClip t = (if \<bar>t\<bar> > 8640000000000000 then None else Some t)"

subsection \<open>Date.prototype.toISOString\<close>

datatype error = RangeError

text \<open>The message of the RangeError that \<open>toISOString\<close> throws on an Invalid Date.\<close>

fun message :: "error \<Rightarrow> string" where
  "message RangeError = ''Invalid time value''"

definition digit_char :: "nat \<Rightarrow> char" where
  "digit_char d = ''0123456789'' ! d"

definition pad2 :: "nat \<Rightarrow> string" where
  "pad2 k = [digit_char (k div 10 mod 10), digit_char (k mod 10)]"

definition pad3 :: "nat \<Rightarrow> string" where
  "pad3 k = digit_char (k div 100 mod 10) # pad2 k"

definition pad4 :: "nat \<Rightarrow> string" where
  "pad4 k = digit_char (k div 1000 mod 10) # pad3 k"

definition pad6 :: "nat \<Rightarrow> string" where
  "pad6 k = digit_char (k div 100000 mod 10) # digit_char (k div 10000 mod 10) # pad4 k"

text \<open>Years 0 to 9999 print with four digits, all others with a sign and six digits.\<close>

definition year_string :: "int \<Rightarrow> string" where
  "year_string y =
     (if 0 \<le> y \<and> y \<le> 9999 then pad4 (nat y)
      else (if y < 0 then CHR ''-'' else CHR ''+'') # pad6 (nat \<bar>y\<bar>))"

definition date_string :: "int \<Rightarrow> string" where
  "date_string t =
     year_string (YearFromTime t) @ ''-'' @ pad2 (nat (MonthFromTime t + 1)) @ ''-'' @
     pad2 (nat (DateFromTime t))"

definition time_string :: "int \<Rightarrow> string" where
  "time_string t =
     pad2 (nat (t div 3600000 mod 24)) @ '':'' @ pad2 (nat (t div 60000 mod 60)) @ '':'' @
     pad2 (nat (t div 1000 mod 60)) @ ''.'' @ pad3 (nat (t mod 1000))"

definition toISOString :: "int option \<Rightarrow> error + string" where
  "toISOString d =
     (case d of
        None \<Rightarrow> Inl RangeError
      | Some t \<Rightarrow> Inr (date_string t @ ''T'' @ time_string t @ ''Z''))"

subsection \<open>The environment of the page\<close>

text \<open>
  What the script takes from the browser and from \<open>index.html\<close>, which is not part of the
  sources: the viewer's time zone, given as \<open>LocalTZA(t, true)\<close> (the offset in ms at a UTC
  time) and \<open>LocalTZA(t, false)\<close> (the offset at a local time); the parser for date strings
  that are not of the form \<open>YYYY-MM-DD\<close>, which Date.parse leaves to the implementation or
  which depend on the time zone; \<open>toLocaleString\<close> with the options of \<open>render\<close>; and the
  option values that \<open>index.html\<close> gives the three select elements.
\<close>

record env =
  LocalTZA_utc :: "int \<Rightarrow> int"
  LocalTZA_local :: "int \<Rightarrow> int"
  parseOther :: "string \<Rightarrow> int option"
  toLocaleString :: "int option \<Rightarrow> string"
  categoryOptions :: "string list"
  districtOptions0 :: "string list"
  itemsOptions :: "string list"

definition LocalTime :: "env \<Rightarrow> int \<Rightarrow> int" where
  "LocalTime env t = t + LocalTZA_utc env t"

definition UTC :: "env \<Rightarrow> int \<Rightarrow> int" where
  "UTC env t = t - LocalTZA_local env t"

subsection \<open>new Date(string)\<close>

definition digit_val :: "char \<Rightarrow> nat option" where
  "digit_val c =
     (let n = (of_char c :: nat) in if 48 \<le> n \<and> n \<le> 57 then Some (n - 48) else None)"

text \<open>The value of a non-empty string of decimal digits, read from the left.\<close>

fun digits_acc :: "nat \<Rightarrow> string \<Rightarrow> nat option" where
  "digits_acc a [] = Some a"
| "digits_acc a (c # cs) =
     (case digit_val c of None \<Rightarrow> None | Some v \<Rightarrow> digits_acc (10 * a + v) cs)"

definition digits_val :: "string \<Rightarrow> nat option" where
  "digits_val s = (if s = [] then None else digits_acc 0 s)"

definition DaysInMonth :: "int \<Rightarrow> int \<Rightarrow> int" where
  "DaysInMonth y m = month_start (leap_days y) m - month_start (leap_days y) (m - 1)"

text \<open>
  The date-only form \<open>YYYY-MM-DD\<close> of the Date Time String Format, which is what a date
  input element holds: year, month (1..12) and day of a date that exists.
\<close>

definition parse_date_only :: "string \<Rightarrow> (int \<times> int \<times> int) option" where
  "parse_date_only s =
     (if length s = 10 \<and> s ! 4 = CHR ''-'' \<and> s ! 7 = CHR ''-'' then
        (case (digits_val (take 4 s), digits_val (take 2 (drop 5 s)), digits_val (drop 8 s)) of
           (Some y, Some m, Some d) \<Rightarrow>
             if 1 \<le> m \<and> m \<le> 12 \<and> 1 \<le> d \<and> int d \<le> DaysInMonth (int y) (int m)
             then Some (int y, int m, int d) else None
         | _ \<Rightarrow> None)
      else None)"

text \<open>
  \<open>new Date(s)\<close>: a date-only string is midnight UTC of that day; every other string goes
  to the environment's parser.
\<close>

definition newDate :: "env \<Rightarrow> string \<Rightarrow> int option" where
  "newDate env s =
     (case parse_date_only s of
        Some (y, m, d) \<Rightarrow> TimeClip (MakeDate (MakeDay y (m - 1) d) 0)
      | None \<Rightarrow> parseOther env s)"

subsection \<open>getDate and setDate\<close>

text \<open>Both work in local time. \<open>getDate\<close> of an Invalid Date is NaN.\<close>

definition getDate :: "env \<Rightarrow> int option \<Rightarrow> int option" where
  "getDate env d = map_option (\<lambda>t. DateFromTime (LocalTime env t)) d"

definition setDate :: "env \<Rightarrow> int option \<Rightarrow> int option \<Rightarrow> int option" where
  "setDate env d dt =
     (case (d, dt) of
        (Some t, Some n) \<Rightarrow>
          (let tl = LocalTime env t;
               nd = MakeDate (MakeDay (YearFromTime tl) (MonthFromTime tl) n) (TimeWithinDay tl)
           in TimeClip (UTC env nd))
      | _ \<Rightarrow> None)"

text \<open>
  Lines 105 to 107 of \<open>applyFilters\<close>:
  \<^verbatim>\<open>const end = new Date(endDate); end.setDate(end.getDate() + 1);\<close>
  \<^verbatim>\<open>const isoNext = end.toISOString().split('T')[0];\<close>
\<close>

definition isoNext :: "env \<Rightarrow> string \<Rightarrow> error + string" where
  "isoNext env endDate =
     (let e0 = newDate env endDate;
          e1 = setDate env e0 (map_option (\<lambda>n. n + 1) (getDate env e0))
      in case toISOString e1 of
           Inl e \<Rightarrow> Inl e
         | Inr txt \<Rightarrow> Inr (split_head CHR ''T'' txt))"

text \<open>Line 71 of the today button: \<^verbatim>\<open>new Date().toISOString().split('T')[0]\<close> at clock reading \<open>now\<close>.\<close>

definition todayStr :: "int \<Rightarrow> error + string" where
  "todayStr now =
     (case toISOString (TimeClip now) of
        Inl e \<Rightarrow> Inl e
      | Inr txt \<Rightarrow> Inr (split_head CHR ''T'' txt))"

section \<open>The page: globals, input elements and rendered output\<close>

text \<open>
  One card of \<open>render\<close>: the texts that its template puts into the markup (lines 147 to
  153), in the order of the template.  The meta line is
  \<open>metaDate\<close>, \<open>metaSource\<close> and \<open>metaDistrict\<close>, joined by bullets.
\<close>

record card =
  href :: string
  heading :: string
  metaDate :: string
  metaSource :: string
  metaDistrict :: string
  badgeClass :: string
  badgeLabel :: string
  body :: string

text \<open>
  The element \<open>news-container\<close>: as \<open>index.html\<close> leaves it, one paragraph of text, or a
  list of cards.
\<close>

datatype container = Untouched | Paragraph string | Cards "card list"

text \<open>
  The globals of the script (\<open>stories\<close>, \<open>filteredStories\<close>, \<open>currentPage\<close>,
  \<open>itemsPerPage\<close>), the values of the five input elements, the option values of the
  district select, and the two output elements.  A pagination button is its page number
  and whether it is marked active.
\<close>

record state =
  stories :: "story list"
  filteredStories :: "story list"
  currentPage :: int
  itemsPerPage :: int
  startInput :: string
  endInput :: string
  categorySelect :: string
  districtSelect :: string
  itemsSelect :: string
  districtOptions :: "string list"
  newsContainer :: container
  pagination :: "(int \<times> bool) list"

text \<open>
  Assigning to \<open>select.value\<close> selects the first option with that value; when there is
  none, no option is selected and the value reads as the empty string.
\<close>

definition select_assign :: "string list \<Rightarrow> string \<Rightarrow> string" where
  "select_assign opts v = (if v \<in> set opts then v else [])"

section \<open>parseInt\<close>

definition is_digit :: "char \<Rightarrow> bool" where
  "is_digit c = (digit_val c \<noteq> None)"

text \<open>
  \<open>parseInt(s, 10)\<close>: leading white space is skipped, then an optional sign, then the
  longest run of decimal digits; NaN (\<open>None\<close>) when there is no digit.  The result is an
  exact integer: the option values of a page-size select are short numerals.
\<close>

definition parseInt :: "string \<Rightarrow> int option" where
  "parseInt s =
     (let s1 = dropWhile is_space s;
          neg = (s1 \<noteq> [] \<and> hd s1 = CHR ''-'');
          s2 = (if s1 \<noteq> [] \<and> (hd s1 = CHR ''+'' \<or> hd s1 = CHR ''-'') then tl s1 else s1);
          ds = takeWhile is_digit s2
      in case digits_val ds of
           None \<Rightarrow> None
         | Some v \<Rightarrow> Some (if neg then - int v else int v))"

text \<open>\<open>parseInt(v, 10) || 50\<close>: NaN and 0 are falsy.\<close>

definition parseInt_or_50 :: "string \<Rightarrow> int" where
  "parseInt_or_50 v = (case parseInt v of None \<Rightarrow> 50 | Some n \<Rightarrow> if n = 0 then 50 else n)"

section \<open>Rendering\<close>

text \<open>\<open>s.replace(/\s+/g, '-')\<close>: every maximal run of white space becomes one hyphen.\<close>

function replace_spaces :: "string \<Rightarrow> string" where
  "replace_spaces [] = []"
| "replace_spaces (c # cs) =
     (if is_space c then CHR ''-'' # replace_spaces (dropWhile is_space cs)
      else c # replace_spaces cs)"
  by pat_completeness auto
termination
  by (relation "measure length") (auto simp: length_dropWhile_le less_Suc_eq_le)

definition categoryToSlug :: "string \<Rightarrow> string" where
  "categoryToSlug cat = replace_spaces (toLowerCase cat)"

text \<open>The body of the \<open>forEach\<close> in \<open>render\<close>, lines 138 to 154.\<close>

definition render_card :: "env \<Rightarrow> story \<Rightarrow> card" where
  "render_card env item =
     (let dateObj = newDate env (pubDate item);
          localDateString = toLocaleString env dateObj;
          catSlug = categoryToSlug (or_else (category item) ''Uncategorised'');
          badge = ''badge-'' @ catSlug
      in \<lparr>href = link item, heading = title item,
          metaDate = localDateString, metaSource = source item,
          metaDistrict = toString (district item),
          badgeClass = badge, badgeLabel = toString (category item),
          body = summary item\<rparr>)"

definition render :: "env \<Rightarrow> story list \<Rightarrow> container" where
  "render env list =
     (if length list = 0 then Paragraph ''No news articles match the selected filters.''
      else Cards (map (render_card env) list))"

text \<open>
  \<open>Array.prototype.slice(start, end)\<close> for integer arguments: a negative index counts from
  the end, and both are clamped to the array.
\<close>

definition slice :: "'a list \<Rightarrow> int \<Rightarrow> int \<Rightarrow> 'a list" where
  "slice xs startIndex endIndex =
     (let len = int (length xs);
          k = (if startIndex < 0 then max (len + startIndex) 0 else min startIndex len);
          final = (if endIndex < 0 then max (len + endIndex) 0 else min endIndex len)
      in take (nat (final - k)) (drop (nat k) xs))"

text \<open>\<open>Math.ceil(filteredStories.length / itemsPerPage)\<close>, on exact numbers.\<close>

definition totalPages :: "state \<Rightarrow> int" where
  "totalPages s = \<lceil>real (length (filteredStories s)) / real_of_int (itemsPerPage s)\<rceil>"

definition renderPagination :: "state \<Rightarrow> (int \<times> bool) list" where
  "renderPagination s =
     (if totalPages s \<le> 1 then []
      else map (\<lambda>i. (i, i = currentPage s)) [1..totalPages s])"

definition pageItems :: "state \<Rightarrow> int \<Rightarrow> story list" where
  "pageItems s page =
     (let startIndex = (page - 1) * itemsPerPage s;
          endIndex = startIndex + itemsPerPage s
      in slice (filteredStories s) startIndex endIndex)"

definition renderPage :: "env \<Rightarrow> int \<Rightarrow> state \<Rightarrow> state" where
  "renderPage env page s =
     s\<lparr>newsContainer := render env (pageItems s page), pagination := renderPagination s\<rparr>"

section \<open>The Filter Engine\<close>

text \<open>
  \<open>applyFilters\<close>, lines 91 to 122.  The only statement that can throw is \<open>toISOString\<close> on
  an Invalid Date; it does so before any global is assigned.
\<close>

definition applyFilters :: "env \<Rightarrow> state \<Rightarrow> error + state" where
  "applyFilters env s =
     (let startDate = startInput s; endDate = endInput s;
          cat = categorySelect s; distr = districtSelect s;
          filtered0 = stories s;
          filtered1 = (if startDate \<noteq> [] then filter (\<lambda>x. str_ge (pubDate x) startDate) filtered0
                       else filtered0)
      in case (if endDate \<noteq> [] then
                 (case isoNext env endDate of
                    Inl e \<Rightarrow> Inl e
                  | Inr nxt \<Rightarrow> Inr (filter (\<lambda>x. str_lt (pubDate x) nxt) filtered1))
               else Inr filtered1) of
           Inl e \<Rightarrow> Inl e
         | Inr filtered2 \<Rightarrow>
             (let filtered3 = (if cat \<noteq> [] \<and> cat \<noteq> ''All''
                               then filter (\<lambda>x. strict_eq (category x) cat) filtered2
                               else filtered2);
                  filtered4 = (if distr \<noteq> [] \<and> distr \<noteq> ''All''
                               then filter (\<lambda>x. strict_eq (district x) distr) filtered3
                               else filtered3)
              in Inr (renderPage env 1 (s\<lparr>filteredStories := filtered4, currentPage := 1\<rparr>))))"

section \<open>The Control Panel\<close>

text \<open>
  An event listener that ends in \<open>applyFilters()\<close>: when that throws, the listener stops
  and the page stays as it was at the throw.
\<close>

definition run_filters :: "env \<Rightarrow> state \<Rightarrow> state \<times> error option" where
  "run_filters env s =
     (case applyFilters env s of Inl e \<Rightarrow> (s, Some e) | Inr s' \<Rightarrow> (s', None))"

text \<open>The change listener of the items-per-page select, lines 63 to 67.\<close>

definition itemsChanged :: "env \<Rightarrow> state \<Rightarrow> state \<times> error option" where
  "itemsChanged env s =
     run_filters env (s\<lparr>itemsPerPage := parseInt_or_50 (itemsSelect s), currentPage := 1\<rparr>)"

text \<open>The click listener of the today button, lines 70 to 77, at clock reading \<open>now\<close>.\<close>

definition todayClicked :: "env \<Rightarrow> int \<Rightarrow> state \<Rightarrow> state \<times> error option" where
  "todayClicked env now s =
     (case todayStr now of
        Inl e \<Rightarrow> (s, Some e)
      | Inr today \<Rightarrow>
          (let todayStories = filter (\<lambda>x. startsWith (pubDate x) today) (stories s)
           in (renderPage env 1
                 (s\<lparr>filteredStories := slice todayStories 0 50,
                    itemsPerPage := 50, currentPage := 1\<rparr>), None)))"

text \<open>The click listener of the reset button, lines 79 to 88.\<close>

definition resetClicked :: "env \<Rightarrow> state \<Rightarrow> state \<times> error option" where
  "resetClicked env s =
     run_filters env
       (s\<lparr>startInput := [], endInput := [],
          categorySelect := select_assign (categoryOptions env) ''All'',
          districtSelect := select_assign (districtOptions s) ''All'',
          itemsSelect := select_assign (itemsOptions env) ''50'',
          itemsPerPage := 50, currentPage := 1\<rparr>)"

text \<open>
  The click listener of pagination button \<open>i\<close>, lines 180 to 183.  Only a button that is on
  the page can be clicked.
\<close>

definition pageClicked :: "env \<Rightarrow> int \<Rightarrow> state \<Rightarrow> state \<times> error option" where
  "pageClicked env i s =
     (if i \<in> fst ` set (pagination s) then (renderPage env i (s\<lparr>currentPage := i\<rparr>), None)
      else (s, None))"

text \<open>
  What the viewer can do once the listeners are installed: change the value of an input
  element (the event carries the new value), or click a button.
\<close>

datatype event =
    StartChange string
  | EndChange string
  | CategoryChange string
  | DistrictChange string
  | ItemsChange string
  | TodayClick int
  | ResetClick
  | PageClick int

fun dispatch :: "env \<Rightarrow> event \<Rightarrow> state \<Rightarrow> state \<times> error option" where
  "dispatch env (StartChange v) s = run_filters env (s\<lparr>startInput := v\<rparr>)"
| "dispatch env (EndChange v) s = run_filters env (s\<lparr>endInput := v\<rparr>)"
| "dispatch env (CategoryChange v) s = run_filters env (s\<lparr>categorySelect := v\<rparr>)"
| "dispatch env (DistrictChange v) s = run_filters env (s\<lparr>districtSelect := v\<rparr>)"
| "dispatch env (ItemsChange v) s = itemsChanged env (s\<lparr>itemsSelect := v\<rparr>)"
| "dispatch env (TodayClick now) s = todayClicked env now s"
| "dispatch env ResetClick s = resetClicked env s"
| "dispatch env (PageClick i) s = pageClicked env i s"

section \<open>The Data Loader\<close>

text \<open>Line 47: the distinct non-empty districts of the data, sorted as strings.\<close>

fun uniq :: "'a list \<Rightarrow> 'a list" where
  "uniq [] = []"
| "uniq (x # xs) = x # uniq (filter (\<lambda>y. y \<noteq> x) xs)"

fun insert_sorted :: "string \<Rightarrow> string list \<Rightarrow> string list" where
  "insert_sorted x [] = [x]"
| "insert_sorted x (y # ys) = (if str_lt x y then x # y # ys else y # insert_sorted x ys)"

definition sort_strings :: "string list \<Rightarrow> string list" where
  "sort_strings xs = foldr insert_sorted xs []"

definition districts :: "story list \<Rightarrow> string list" where
  "districts xs = sort_strings (uniq (map toString (filter truthy (map district xs))))"

text \<open>\<open>initialiseFilters\<close>, lines 37 to 89, without the listeners (they are \<open>dispatch\<close>).\<close>

definition initialiseFilters :: "env \<Rightarrow> state \<Rightarrow> state" where
  "initialiseFilters env s =
     s\<lparr>districtOptions := districtOptions s @ districts (stories s),
       itemsSelect := select_assign (itemsOptions env) ''50''\<rparr>"

text \<open>
  The page before the data arrives, given the values that the select elements of
  \<open>index.html\<close> start with.
\<close>

definition initial :: "env \<Rightarrow> string \<Rightarrow> string \<Rightarrow> string \<Rightarrow> state" where
  "initial env cat0 dist0 items0 =
     \<lparr>stories = [], filteredStories = [], currentPage = 1, itemsPerPage = 50,
      startInput = [], endInput = [], categorySelect = cat0, districtSelect = dist0,
      itemsSelect = items0, districtOptions = districtOptions0 env,
      newsContainer = Untouched, pagination = []\<rparr>"

text \<open>The fetch succeeded with \<open>data\<close> (lines 26 to 31); an exception goes to the catch.\<close>

definition loaded :: "env \<Rightarrow> story list \<Rightarrow> state \<Rightarrow> state" where
  "loaded env data s =
     (let s1 = initialiseFilters env (s\<lparr>stories := data\<rparr>)
      in case applyFilters env s1 of
           Inr s2 \<Rightarrow> s2
         | Inl e \<Rightarrow> s1\<lparr>newsContainer := Paragraph (''Error loading news: '' @ message e)\<rparr>)"

text \<open>The fetch failed with an error of message \<open>msg\<close> (lines 32 to 35).\<close>

definition loadFailed :: "string \<Rightarrow> state \<Rightarrow> state" where
  "loadFailed msg s = s\<lparr>newsContainer := Paragraph (''Error loading news: '' @ msg)\<rparr>"

section \<open>Reference definitions and example data\<close>

text \<open>
  The predicate of the Filter Engine as the specification words it: a story is kept when
  every active predicate holds.  \<open>nxt\<close> is the exclusive bound of the end-date predicate,
  \<open>None\<close> when no end date is chosen.
\<close>

definition selected :: "string \<Rightarrow> string option \<Rightarrow> string \<Rightarrow> string \<Rightarrow> story \<Rightarrow> bool" where
  "selected startDate nxt cat distr x =
     ((startDate = [] \<or> str_ge (pubDate x) startDate) \<and>
      (case nxt of None \<Rightarrow> True | Some n \<Rightarrow> str_lt (pubDate x) n) \<and>
      (cat = [] \<or> cat = ''All'' \<or> category x = JString cat) \<and>
      (distr = [] \<or> distr = ''All'' \<or> district x = JString distr))"

text \<open>The bound that \<open>applyFilters\<close> computes from the end-date input, when it computes one.\<close>

definition end_limit :: "env \<Rightarrow> string \<Rightarrow> string option" where
  "end_limit env endDate =
     (if endDate = [] then None
      else case isoNext env endDate of Inr n \<Rightarrow> Some n | Inl e \<Rightarrow> None)"

text \<open>
  A browser in a time zone with a constant offset (in ms) from UTC, with the categories of
  the README as options.  Its parser knows date-only strings only, and its
  \<open>toLocaleString\<close> prints the local date.
\<close>

definition fixed_zone :: "int \<Rightarrow> env" where
  "fixed_zone off =
     \<lparr>LocalTZA_utc = (\<lambda>t. off), LocalTZA_local = (\<lambda>t. off),
      parseOther = (\<lambda>s. None),
      toLocaleString = (\<lambda>d. case d of None \<Rightarrow> ''Invalid Date'' | Some t \<Rightarrow> date_string (t + off)),
      categoryOptions = [''All'', ''Opposition Activity'', ''NDA Activity'',
        ''Governance issues'', ''Judicial cases''],
      districtOptions0 = [''All''],
      itemsOptions = [''10'', ''25'', ''50'', ''100'']\<rparr>"

text \<open>India Standard Time, UTC+05:30.\<close>

definition india :: env where
  "india = fixed_zone 19800000"

definition mk_story :: "string \<Rightarrow> jsval \<Rightarrow> jsval \<Rightarrow> story" where
  "mk_story p d c =
     \<lparr>title = ''Title'', link = ''https://example.org/a'', pubDate = p, source = ''Feed'',
      district = d, category = c, summary = ''Summary''\<rparr>"

text \<open>The page after \<open>data\<close> has loaded, with both selects of \<open>index.html\<close> on \<open>All\<close>.\<close>

definition page_with :: "env \<Rightarrow> story list \<Rightarrow> state" where
  "page_with env data = loaded env data (initial env ''All'' ''All'' ''50'')"

text \<open>Four stories: one that matches a category and a district filter, one for each
  single filter, and one without district and category.\<close>

definition s_both :: story where
  "s_both = mk_story ''2024-05-02T09:00'' (JString ''Lucknow'') (JString ''Governance issues'')"

definition s_cat :: story where
  "s_cat = mk_story ''2024-05-01T09:00'' (JString ''Kanpur'') (JString ''Governance issues'')"

definition s_dis :: story where
  "s_dis = mk_story ''2024-05-03T10:30'' (JString ''Lucknow'') (JString ''NDA Activity'')"

definition s_bare :: story where
  "s_bare = mk_story ''2024-04-30T08:00'' JUndefined (JString [])"

definition four_stories :: "story list" where
  "four_stories = [s_cat, s_both, s_dis, s_bare]"

definition many_stories :: "nat \<Rightarrow> story list" where
  "many_stories n = map (\<lambda>k. mk_story (pad3 k) JUndefined JUndefined) [0..<n]"

text \<open>
  Today's calendar date on the viewer's local clock, as the specification words the
  contract of the today button.
\<close>

definition local_date_string :: "env \<Rightarrow> int \<Rightarrow> string" where
  "local_date_string env now = date_string (LocalTime env now)"

text \<open>The two stories of the specification's example for the today button.\<close>

definition two_days :: "story list" where
  "two_days = [mk_story ''2024-05-01T09:00'' JUndefined JUndefined,
               mk_story ''2024-05-02T09:00'' JUndefined JUndefined]"

text \<open>Three stories without category and district: absent, \<open>null\<close> and empty.\<close>

definition s_absent :: story where
  "s_absent = mk_story ''2024-05-02T09:00'' JUndefined JUndefined"

definition s_null :: story where
  "s_null = mk_story ''2024-05-02T09:00'' JNull JNull"

definition s_empty :: story where
  "s_empty = mk_story ''2024-05-02T09:00'' (JString []) (JString [])"

text \<open>
  Central European Time in 2024: UTC+01:00, and UTC+02:00 from 2024-03-31T01:00Z to
  2024-10-27T01:00Z.  A local time that the change skips or repeats is read with the
  offset before the change.
\<close>

definition berlin2024 :: env where
  "berlin2024 =
     (fixed_zone 3600000)
       \<lparr>LocalTZA_utc := (\<lambda>t. if 1711846800000 \<le> t \<and> t < 1729990800000 then 7200000 else 3600000),
        LocalTZA_local := (\<lambda>t. if 1711854000000 \<le> t \<and> t < 1729998000000 then 7200000 else 3600000)\<rparr>"

definition dst_story :: story where
  "dst_story = mk_story ''2024-03-31T09:00'' (JString ''Lucknow'') (JString ''NDA Activity'')"

text \<open>
  The page is consistent with the loaded \<open>data\<close>: the story collection is the data, the
  filtered stories are a subsequence of it, and the container shows a contiguous slice of
  the filtered stories.
\<close>

definition page_ok :: "env \<Rightarrow> story list \<Rightarrow> state \<Rightarrow> bool" where
  "page_ok env data s =
     (stories s = data \<and> subseq (filteredStories s) data \<and>
      (\<exists>p. sublist p (filteredStories s) \<and> newsContainer s = render env p))"

text \<open>
  The pages a viewer can reach: the data loads into the initial page, then events are
  dispatched, whether the listener finishes or throws.
\<close>

inductive reachable :: "env \<Rightarrow> story list \<Rightarrow> state \<Rightarrow> bool" for env data where
  start: "reachable env data (loaded env data (initial env cat0 dist0 items0))"
| step: "reachable env data s \<Longrightarrow> dispatch env e s = (s', err) \<Longrightarrow> reachable env data s'"

text \<open>
  Calendar dates as the specification uses them: a date that exists, its text
  \<open>YYYY-MM-DD\<close>, and the calendar day after it.
\<close>

definition valid_date :: "int \<Rightarrow> int \<Rightarrow> int \<Rightarrow> bool" where
  "valid_date y m d = (1 \<le> m \<and> m \<le> 12 \<and> 1 \<le> d \<and> d \<le> DaysInMonth y m)"

definition date_text :: "int \<Rightarrow> int \<Rightarrow> int \<Rightarrow> string" where
  "date_text y m d = year_string y @ ''-'' @ pad2 (nat m) @ ''-'' @ pad2 (nat d)"

definition next_date :: "int \<Rightarrow> int \<Rightarrow> int \<Rightarrow> int \<times> int \<times> int" where
  "next_date y m d =
     (if d < DaysInMonth y m then (y, m, d + 1)
      else if m < 12 then (y, m + 1, 1)
      else (y + 1, 1, 1))"

text \<open>A time zone whose offset from UTC never changes.\<close>

definition constant_zone :: "env \<Rightarrow> int \<Rightarrow> bool" where
  "constant_zone env off = (LocalTZA_utc env = (\<lambda>t. off) \<and> LocalTZA_local env = (\<lambda>t. off))"

section \<open>The order on strings\<close>

lemma of_char_inj: "(of_char x :: nat) = of_char y \<Longrightarrow> x = y"
  by simp

lemma str_lt_irrefl: "\<not> str_lt a a"
  by (induction a) auto

lemma str_lt_trans: "str_lt a b \<Longrightarrow> str_lt b c \<Longrightarrow> str_lt a c"
proof (induction a b arbitrary: c rule: str_lt.induct)
  case 1
  then show ?case by simp
next
  case (2 y ys)
  then show ?case by (cases c) auto
next
  case (3 x xs)
  then show ?case by simp
next
  case (4 x xs y ys)
  then show ?case
    by (cases c) (auto split: if_splits)
qed

lemma str_lt_total: "a = b \<or> str_lt a b \<or> str_lt b a"
  by (induction a b rule: str_lt.induct) (auto dest: of_char_inj)

lemma str_lt_asym: "str_lt a b \<Longrightarrow> \<not> str_lt b a"
  using str_lt_trans str_lt_irrefl by blast

lemma str_ge_iff: "str_ge a b \<longleftrightarrow> a = b \<or> str_lt b a"
  unfolding str_ge_def using str_lt_total str_lt_asym str_lt_irrefl by blast

lemma str_lt_append: "str_lt a (a @ c # cs)"
  by (induction a) auto

lemma startsWith_prefix: "startsWith s p = prefix p s"
  unfolding startsWith_def prefix_def
  by (metis append_eq_conv_conj append_take_drop_id)

lemma selected_all [simp]:
  "c \<in> {[], ''All''} \<Longrightarrow> d \<in> {[], ''All''} \<Longrightarrow> selected [] None c d x"
  by (auto simp: selected_def)

section \<open>Properties of the Filter Engine\<close>

lemma strict_eq_iff: "strict_eq v c = (v = JString c)"
  by (cases v) auto

lemma applyFilters_no_end:
  assumes "endInput s = []"
  shows "applyFilters env s =
    Inr (renderPage env 1
      (s\<lparr>filteredStories :=
           filter (selected (startInput s) None (categorySelect s) (districtSelect s)) (stories s),
         currentPage := 1\<rparr>))"
proof -
  have "filter (selected (startInput s) None (categorySelect s) (districtSelect s)) (stories s) =
    (let f1 = (if startInput s \<noteq> [] then filter (\<lambda>x. str_ge (pubDate x) (startInput s)) (stories s) else stories s);
         f3 = (if categorySelect s \<noteq> [] \<and> categorySelect s \<noteq> ''All''
               then filter (\<lambda>x. strict_eq (category x) (categorySelect s)) f1 else f1)
     in (if districtSelect s \<noteq> [] \<and> districtSelect s \<noteq> ''All''
               then filter (\<lambda>x. strict_eq (district x) (districtSelect s)) f3 else f3))"
    by (auto simp: selected_def strict_eq_iff Let_def intro!: filter_cong)
  then show ?thesis
    using assms by (simp add: applyFilters_def Let_def)
qed

lemma applyFilters_end:
  assumes "endInput s \<noteq> []" "isoNext env (endInput s) = Inr n"
  shows "applyFilters env s =
    Inr (renderPage env 1
      (s\<lparr>filteredStories :=
           filter (selected (startInput s) (Some n) (categorySelect s) (districtSelect s)) (stories s),
         currentPage := 1\<rparr>))"
proof -
  have "filter (selected (startInput s) (Some n) (categorySelect s) (districtSelect s)) (stories s) =
    (let f1 = (if startInput s \<noteq> [] then filter (\<lambda>x. str_ge (pubDate x) (startInput s)) (stories s) else stories s);
         f2 = filter (\<lambda>x. str_lt (pubDate x) n) f1;
         f3 = (if categorySelect s \<noteq> [] \<and> categorySelect s \<noteq> ''All''
               then filter (\<lambda>x. strict_eq (category x) (categorySelect s)) f2 else f2)
     in (if districtSelect s \<noteq> [] \<and> districtSelect s \<noteq> ''All''
               then filter (\<lambda>x. strict_eq (district x) (districtSelect s)) f3 else f3))"
    by (auto simp: selected_def strict_eq_iff Let_def intro!: filter_cong)
  then show ?thesis
    using assms by (simp add: applyFilters_def Let_def)
qed

lemma applyFilters_throws:
  assumes "endInput s \<noteq> []" "isoNext env (endInput s) = Inl e"
  shows "applyFilters env s = Inl e"
  using assms by (simp add: applyFilters_def Let_def)

text \<open>
  \<open>applyFilters\<close> either throws, which only the conversion of the end date can cause, or
  stores the stories that pass every active predicate, sets the page to 1 and renders.
\<close>

lemma applyFilters_result:
  "(case applyFilters env s of
      Inl e \<Rightarrow> endInput s \<noteq> [] \<and> isoNext env (endInput s) = Inl e
    | Inr s' \<Rightarrow>
        s' = renderPage env 1
          (s\<lparr>filteredStories :=
               filter (selected (startInput s) (end_limit env (endInput s)) (categorySelect s)
                 (districtSelect s)) (stories s),
             currentPage := 1\<rparr>))"
proof (cases "endInput s = []")
  case True
  then show ?thesis by (simp add: applyFilters_no_end end_limit_def)
next
  case False
  show ?thesis
  proof (cases "isoNext env (endInput s)")
    case (Inl e)
    with False show ?thesis by (simp add: applyFilters_throws)
  next
    case (Inr n)
    with False show ?thesis by (simp add: applyFilters_end end_limit_def)
  qed
qed

lemma applyFilters_Inr:
  assumes "applyFilters env s = Inr s'"
  shows "s' = renderPage env 1
          (s\<lparr>filteredStories :=
               filter (selected (startInput s) (end_limit env (endInput s)) (categorySelect s)
                 (districtSelect s)) (stories s),
             currentPage := 1\<rparr>)"
  using applyFilters_result [where env = env and s = s] assms by simp

section \<open>Properties of the Paginator\<close>

lemma slice_nonneg:
  assumes "0 \<le> a" "0 \<le> n"
  shows "slice xs a (a + n) = take (nat n) (drop (nat a) xs)"
proof (cases "a < int (length xs)")
  case True
  have "take (nat (min (a + n) (int (length xs)) - a)) (drop (nat a) xs) =
        take (nat n) (drop (nat a) xs)"
  proof (cases "a + n \<le> int (length xs)")
    case True
    then show ?thesis by (simp add: min_def)
  next
    case False
    then have "length (drop (nat a) xs) \<le> nat n" using assms by simp
    moreover have "length (drop (nat a) xs) \<le> nat (int (length xs) - a)" using assms by simp
    ultimately show ?thesis using False by (simp add: min_def)
  qed
  moreover have "slice xs a (a + n) = take (nat (min (a + n) (int (length xs)) - a)) (drop (nat a) xs)"
    using True assms by (simp add: slice_def Let_def min_def)
  ultimately show ?thesis by simp
next
  case False
  then have "length xs \<le> nat a" using assms by linarith
  moreover have "slice xs a (a + n) = take (nat (min (a + n) (int (length xs)) - int (length xs))) (drop (length xs) xs)"
    using False assms by (simp add: slice_def Let_def min_def)
  ultimately show ?thesis by simp
qed

lemma pageItems_take_drop:
  assumes "1 \<le> page" "1 \<le> itemsPerPage s"
  shows "pageItems s page =
    take (nat (itemsPerPage s)) (drop (nat ((page - 1) * itemsPerPage s)) (filteredStories s))"
proof -
  have "0 \<le> (page - 1) * itemsPerPage s" using assms by simp
  then show ?thesis
    using assms slice_nonneg [of "(page - 1) * itemsPerPage s" "itemsPerPage s" "filteredStories s"]
    by (simp add: pageItems_def Let_def)
qed

lemma totalPages_div: "totalPages s = - ((- int (length (filteredStories s))) div itemsPerPage s)"
  unfolding totalPages_def
  by (metis ceiling_divide_eq_div of_int_of_nat_eq)

section \<open>The example pages\<close>

lemma page_with_fields:
  "stories (page_with env data) = data"
  "filteredStories (page_with env data) = data"
  "currentPage (page_with env data) = 1"
  "itemsPerPage (page_with env data) = 50"
  "startInput (page_with env data) = []"
  "endInput (page_with env data) = []"
  "categorySelect (page_with env data) = ''All''"
  "districtSelect (page_with env data) = ''All''"
  by (simp_all add: page_with_def loaded_def initial_def initialiseFilters_def
      applyFilters_no_end renderPage_def Let_def)

lemma many_stories_length: "length (many_stories n) = n"
  by (simp add: many_stories_def)

section \<open>The date part of toISOString\<close>

lemma digit_char_digit: "digit_char (k mod 10) \<in> set ''0123456789''"
  unfolding digit_char_def by (rule nth_mem) simp

lemma digit_char_not_T:
  "(digit_char (k mod 10) = CHR ''T'') = False" "(CHR ''T'' = digit_char (k mod 10)) = False"
  using digit_char_digit [of k] by auto

lemma pad_not_T:
  "CHR ''T'' \<notin> set (pad2 k)" "CHR ''T'' \<notin> set (pad3 k)"
  "CHR ''T'' \<notin> set (pad4 k)" "CHR ''T'' \<notin> set (pad6 k)"
  by (simp_all add: pad2_def pad3_def pad4_def pad6_def digit_char_not_T)

lemma date_string_not_T: "CHR ''T'' \<notin> set (date_string t)"
  by (simp add: date_string_def year_string_def pad_not_T)

lemma split_head_date: "split_head CHR ''T'' (date_string t @ ''T'' @ r) = date_string t"
proof -
  have "takeWhile (\<lambda>c. c \<noteq> CHR ''T'') (date_string t @ CHR ''T'' # r) = date_string t"
    using date_string_not_T [of t] by (auto simp: takeWhile_tail)
  then show ?thesis by (simp add: split_head_def)
qed

lemma todayStr_utc:
  assumes "\<bar>now\<bar> \<le> 8640000000000000"
  shows "todayStr now = Inr (date_string now)"
  using assms split_head_date [of now "time_string now @ ''Z''"]
  by (simp add: todayStr_def toISOString_def TimeClip_def)

lemma date_string_example: "date_string 1714595400000 = ''2024-05-01''"
  by code_simp

lemma local_date_example: "local_date_string india 1714595400000 = ''2024-05-02''"
  by code_simp

lemma isoNext_berlin: "isoNext berlin2024 ''2024-03-31'' = Inr ''2024-03-31''"
  by code_simp

lemma isoNext_india: "isoNext india ''2024-03-31'' = Inr ''2024-04-01''"
  by code_simp

section \<open>The listeners\<close>

lemma slice_take: "0 \<le> n \<Longrightarrow> slice xs 0 n = take (nat n) xs"
  using slice_nonneg [of 0 n xs] by simp

lemma pageItems_first:
  "1 \<le> itemsPerPage s \<Longrightarrow> pageItems s 1 = take (nat (itemsPerPage s)) (filteredStories s)"
  using pageItems_take_drop [of 1 s] by simp

lemma todayClicked_utc:
  assumes "\<bar>now\<bar> \<le> 8640000000000000"
  shows "todayClicked env now s =
    (renderPage env 1
       (s\<lparr>filteredStories :=
            take 50 (filter (\<lambda>x. prefix (date_string now) (pubDate x)) (stories s)),
          itemsPerPage := 50, currentPage := 1\<rparr>), None)"
  using todayStr_utc [OF assms]
  by (simp add: todayClicked_def slice_take startsWith_prefix)

lemma select_assign_All: "select_assign opts ''All'' \<in> {[], ''All''}"
  by (simp add: select_assign_def)

lemma filter_selected_all:
  "c \<in> {[], ''All''} \<Longrightarrow> d \<in> {[], ''All''} \<Longrightarrow> filter (selected [] None c d) xs = xs"
  by (rule filter_True) (simp add: selected_all)

lemma resetClicked_result:
  "resetClicked env s =
    (renderPage env 1
       (s\<lparr>startInput := [], endInput := [],
          categorySelect := select_assign (categoryOptions env) ''All'',
          districtSelect := select_assign (districtOptions s) ''All'',
          itemsSelect := select_assign (itemsOptions env) ''50'',
          itemsPerPage := 50, filteredStories := stories s, currentPage := 1\<rparr>), None)"
  using select_assign_All [of "categoryOptions env"] select_assign_All [of "districtOptions s"]
  by (simp add: resetClicked_def run_filters_def applyFilters_no_end filter_selected_all
      del: insert_iff)

lemma end_changed:
  assumes "v \<noteq> []" "isoNext env v = Inr n"
  shows "dispatch env (EndChange v) (page_with env data) =
    (renderPage env 1
       ((page_with env data)\<lparr>endInput := v,
          filteredStories := filter (\<lambda>x. str_lt (pubDate x) n) data, currentPage := 1\<rparr>), None)"
proof -
  have "filter (selected [] (Some n) ''All'' ''All'') data = filter (\<lambda>x. str_lt (pubDate x) n) data"
    by (rule filter_cong) (simp_all add: selected_def)
  then show ?thesis
    using assms applyFilters_end [of "(page_with env data)\<lparr>endInput := v\<rparr>" env n]
    by (simp add: run_filters_def page_with_fields)
qed

lemma take_drop_sublist: "sublist (take n (drop k xs)) xs"
proof -
  have "drop k xs = take n (drop k xs) @ drop n (drop k xs)"
    by (simp only: append_take_drop_id)
  then have "xs = take k xs @ take n (drop k xs) @ drop n (drop k xs)"
    by (metis append_take_drop_id)
  then show ?thesis unfolding sublist_def by blast
qed

lemma slice_sublist: "sublist (slice xs a b) xs"
  unfolding slice_def Let_def by (rule take_drop_sublist)

lemma pageItems_sublist: "sublist (pageItems s page) (filteredStories s)"
  by (simp add: pageItems_def Let_def slice_sublist)

lemma renderPage_fields:
  "stories (renderPage env page s) = stories s"
  "filteredStories (renderPage env page s) = filteredStories s"
  "currentPage (renderPage env page s) = currentPage s"
  "itemsPerPage (renderPage env page s) = itemsPerPage s"
  "newsContainer (renderPage env page s) = render env (pageItems s page)"
  "pagination (renderPage env page s) = renderPagination s"
  "pageItems (renderPage env page s) q = pageItems s q"
  "renderPagination (renderPage env page s) = renderPagination s"
  by (simp_all add: renderPage_def pageItems_def renderPagination_def totalPages_def)

lemma run_filters_cases:
  assumes "run_filters env s = (s', err)"
  shows "(err = None \<and> applyFilters env s = Inr s') \<or> (err \<noteq> None \<and> s' = s)"
  using assms by (auto simp: run_filters_def split: sum.splits)

lemma applied_fields:
  assumes "applyFilters env s = Inr s'"
  shows "stories s' = stories s"
    and "subseq (filteredStories s') (stories s)"
    and "currentPage s' = 1"
    and "itemsPerPage s' = itemsPerPage s"
    and "newsContainer s' = render env (pageItems s' 1)"
    and "pagination s' = renderPagination s'"
  unfolding applyFilters_Inr [OF assms]
  by (simp_all add: renderPage_fields)

lemma run_filters_page:
  assumes "run_filters env s = (s', err)"
  shows "stories s' = stories s"
    and "itemsPerPage s' = itemsPerPage s"
    and "err \<noteq> None \<longrightarrow> s' = s"
    and "err = None \<longrightarrow> currentPage s' = 1 \<and> newsContainer s' = render env (pageItems s' 1) \<and>
           pagination s' = renderPagination s'"
  using run_filters_cases [OF assms] applied_fields [of env s s'] by auto

lemma parseInt_or_50_nonzero: "parseInt_or_50 v \<noteq> 0"
  by (simp add: parseInt_or_50_def split: option.splits)

lemma page_with_pagination:
  "pagination (page_with env data) =
     (if - ((- int (length data)) div 50) \<le> 1 then []
      else map (\<lambda>i. (i, i = 1)) [1..- ((- int (length data)) div 50)])"
  by (simp add: page_with_def loaded_def initial_def initialiseFilters_def
      applyFilters_no_end renderPage_def renderPagination_def totalPages_div Let_def)

lemma parseInt_25: "parseInt_or_50 ''25'' = 25"
  by code_simp

lemma second_page:
  "pageClicked india 2 (page_with india (many_stories 125)) =
     (renderPage india 2 ((page_with india (many_stories 125))\<lparr>currentPage := 2\<rparr>), None)"
proof -
  have "pagination (page_with india (many_stories 125)) = map (\<lambda>i. (i, i = 1)) [1..3]"
    by (simp add: page_with_pagination many_stories_length)
  then have "2 \<in> fst ` set (pagination (page_with india (many_stories 125)))"
    by (simp add: upto.simps)
  then show ?thesis by (simp add: pageClicked_def)
qed

section \<open>The page stays consistent with the data\<close>

lemma run_filters_ok:
  assumes "run_filters env s = (s', err)" and "page_ok env data s"
  shows "page_ok env data s'"
proof -
  from run_filters_cases [OF assms(1)] show ?thesis
  proof
    assume "err = None \<and> applyFilters env s = Inr s'"
    then have a: "applyFilters env s = Inr s'" by simp
    have "sublist (pageItems s' 1) (filteredStories s')" by (rule pageItems_sublist)
    with applied_fields [OF a] assms(2) show ?thesis
      unfolding page_ok_def by auto
  next
    assume "err \<noteq> None \<and> s' = s"
    with assms(2) show ?thesis by simp
  qed
qed

lemma page_ok_inputs [simp]:
  "page_ok env data (s\<lparr>startInput := v\<rparr>) = page_ok env data s"
  "page_ok env data (s\<lparr>endInput := v\<rparr>) = page_ok env data s"
  "page_ok env data (s\<lparr>categorySelect := v\<rparr>) = page_ok env data s"
  "page_ok env data (s\<lparr>districtSelect := v\<rparr>) = page_ok env data s"
  "page_ok env data (s\<lparr>itemsSelect := v\<rparr>) = page_ok env data s"
  "page_ok env data (s\<lparr>itemsPerPage := n\<rparr>) = page_ok env data s"
  "page_ok env data (s\<lparr>currentPage := n\<rparr>) = page_ok env data s"
  by (simp_all add: page_ok_def)

lemma today_ok:
  assumes "todayClicked env now s = (s', err)" and "page_ok env data s"
  shows "page_ok env data s'"
proof (cases "todayStr now")
  case (Inl e)
  with assms show ?thesis by (simp add: todayClicked_def)
next
  case (Inr today)
  let ?f = "slice (filter (\<lambda>x. startsWith (pubDate x) today) (stories s)) 0 50"
  let ?t = "s\<lparr>filteredStories := ?f, itemsPerPage := 50, currentPage := 1\<rparr>"
  have s': "s' = renderPage env 1 ?t"
    using assms(1) Inr by (simp add: todayClicked_def Let_def)
  have "subseq ?f (filter (\<lambda>x. startsWith (pubDate x) today) (stories s))"
    by (rule sublist_imp_subseq [OF slice_sublist])
  then have "subseq ?f (stories s)"
    by (rule subseq_order.trans) simp
  moreover have "sublist (pageItems ?t 1) ?f"
    using pageItems_sublist [of ?t 1] by simp
  ultimately show ?thesis
    using assms(2) unfolding page_ok_def s' by (auto simp: renderPage_fields)
qed

lemma pageClicked_ok:
  assumes "pageClicked env i s = (s', err)" and "page_ok env data s"
  shows "page_ok env data s'"
proof (cases "i \<in> fst ` set (pagination s)")
  case False
  with assms show ?thesis by (simp add: pageClicked_def)
next
  case True
  then have s': "s' = renderPage env i (s\<lparr>currentPage := i\<rparr>)"
    using assms(1) by (simp add: pageClicked_def)
  have "sublist (pageItems (s\<lparr>currentPage := i\<rparr>) i) (filteredStories s)"
    using pageItems_sublist [of "s\<lparr>currentPage := i\<rparr>" i] by simp
  then show ?thesis
    using assms(2) unfolding page_ok_def s' by (auto simp: renderPage_fields)
qed

lemma dispatch_ok:
  assumes "dispatch env e s = (s', err)" and "page_ok env data s"
  shows "page_ok env data s'"
proof (cases e)
  case (StartChange v)
  with assms show ?thesis using run_filters_ok [of env "s\<lparr>startInput := v\<rparr>" s' err data] by simp
next
  case (EndChange v)
  with assms show ?thesis using run_filters_ok [of env "s\<lparr>endInput := v\<rparr>" s' err data] by simp
next
  case (CategoryChange v)
  with assms show ?thesis using run_filters_ok [of env "s\<lparr>categorySelect := v\<rparr>" s' err data] by simp
next
  case (DistrictChange v)
  with assms show ?thesis using run_filters_ok [of env "s\<lparr>districtSelect := v\<rparr>" s' err data] by simp
next
  case (ItemsChange v)
  with assms show ?thesis
    using run_filters_ok [of env "s\<lparr>itemsSelect := v, itemsPerPage := parseInt_or_50 v,
      currentPage := 1\<rparr>" s' err data]
    by (simp add: itemsChanged_def)
next
  case (TodayClick now)
  with assms show ?thesis using today_ok [of env now s s' err data] by simp
next
  case ResetClick
  with assms show ?thesis
    using run_filters_ok [of env "s\<lparr>startInput := [], endInput := [],
          categorySelect := select_assign (categoryOptions env) ''All'',
          districtSelect := select_assign (districtOptions s) ''All'',
          itemsSelect := select_assign (itemsOptions env) ''50'',
          itemsPerPage := 50, currentPage := 1\<rparr>" s' err data]
    by (simp add: resetClicked_def)
next
  case (PageClick i)
  with assms show ?thesis using pageClicked_ok [of env i s s' err data] by simp
qed

lemma loaded_ok: "page_ok env data (loaded env data (initial env cat0 dist0 items0))"
proof -
  let ?s1 = "initialiseFilters env ((initial env cat0 dist0 items0)\<lparr>stories := data\<rparr>)"
  have e: "endInput ?s1 = []" by (simp add: initialiseFilters_def initial_def)
  obtain s2 where a: "applyFilters env ?s1 = Inr s2"
    using applyFilters_no_end [OF e] by simp
  have st: "stories ?s1 = data" by (simp add: initialiseFilters_def)
  have "sublist (pageItems s2 1) (filteredStories s2)" by (rule pageItems_sublist)
  with applied_fields [OF a] st have "page_ok env data s2"
    unfolding page_ok_def by auto
  with a show ?thesis by (simp add: loaded_def Let_def)
qed

section \<open>The badge class\<close>

lemma hyphen_not_space: "\<not> is_space CHR ''-''"
  by (simp add: is_space_def)

lemma replace_spaces_no_space: "\<forall>c \<in> set (replace_spaces s). \<not> is_space c"
proof (induction s rule: replace_spaces.induct)
  case 1
  then show ?case by simp
next
  case (2 c cs)
  show ?case
  proof (cases "is_space c")
    case True
    with 2(1) show ?thesis by (simp add: hyphen_not_space)
  next
    case False
    with 2(2) show ?thesis by simp
  qed
qed

lemma replace_spaces_id: "\<forall>c \<in> set s. \<not> is_space c \<Longrightarrow> replace_spaces s = s"
  by (induction s) simp_all

lemma replace_spaces_append:
  "a = [] \<or> \<not> is_space (last a) \<Longrightarrow> replace_spaces (a @ r) = replace_spaces a @ replace_spaces r"
proof (induction a rule: replace_spaces.induct)
  case 1
  then show ?case by simp
next
  case (2 c cs)
  show ?case
  proof (cases "is_space c")
    case False
    with 2 show ?thesis by (cases cs) auto
  next
    case True
    with 2(3) have ne: "cs \<noteq> []" and l: "\<not> is_space (last cs)"
      by (auto split: if_splits)
    then have m: "last cs \<in> set cs" by simp
    have d: "dropWhile is_space (cs @ r) = dropWhile is_space cs @ r"
      using m l by (rule dropWhile_append1)
    have dne: "dropWhile is_space cs \<noteq> []"
      using m l by (auto simp: dropWhile_eq_Nil_conv)
    then have "last (dropWhile is_space cs) = last cs"
      by (metis append_Nil2 last_appendR takeWhile_dropWhile_id)
    with l 2(1) [OF True] have
      "replace_spaces (dropWhile is_space cs @ r) =
       replace_spaces (dropWhile is_space cs) @ replace_spaces r"
      by simp
    with True d show ?thesis by simp
  qed
qed

lemma replace_spaces_run:
  assumes "w \<noteq> []" "\<forall>c \<in> set w. is_space c" "b = [] \<or> \<not> is_space (hd b)"
  shows "replace_spaces (w @ b) = CHR ''-'' # replace_spaces b"
proof -
  obtain c w' where w: "w = c # w'" using assms(1) by (cases w) auto
  have "dropWhile is_space (w' @ b) = b"
  proof (cases b)
    case Nil
    with assms(2) w show ?thesis by (simp add: dropWhile_eq_Nil_conv)
  next
    case (Cons x xs)
    with assms(3) have "\<not> is_space x" by simp
    with assms(2) w Cons show ?thesis by (simp add: dropWhile_append2)
  qed
  with assms(2) w show ?thesis by simp
qed

lemma is_space_lower: "is_space (lower_char c) = is_space c"
proof (cases "(65 \<le> (of_char c :: nat) \<and> (of_char c :: nat) \<le> 90) \<or>
    (192 \<le> (of_char c :: nat) \<and> (of_char c :: nat) \<le> 222 \<and> (of_char c :: nat) \<noteq> 215)")
  case False
  then show ?thesis by (auto simp: lower_char_def Let_def)
next
  case True
  define n where "n = (of_char c :: nat)"
  from True have r: "(65 \<le> n \<and> n \<le> 90) \<or> (192 \<le> n \<and> n \<le> 222)"
    unfolding n_def by linarith
  then have "n + 32 < 256" by linarith
  then have v: "(of_char (char_of (n + 32)) :: nat) = n + 32" by simp
  have l: "lower_char c = char_of (n + 32)"
    using True by (simp add: lower_char_def Let_def n_def)
  have "n + 32 \<notin> {9, 10, 11, 12, 13, 32, 160}"
    using r by auto
  then have "\<not> is_space (char_of (n + 32))"
    unfolding is_space_def v .
  moreover have "n \<notin> {9, 10, 11, 12, 13, 32, 160}"
    using r by auto
  then have "\<not> is_space c"
    unfolding is_space_def n_def .
  ultimately show ?thesis by (simp add: l)
qed

lemma categoryToSlug_append:
  assumes "w \<noteq> []" "\<forall>c \<in> set w. is_space c"
    and "a = [] \<or> \<not> is_space (last a)" and "b = [] \<or> \<not> is_space (hd b)"
  shows "categoryToSlug (a @ w @ b) = categoryToSlug a @ ''-'' @ categoryToSlug b"
proof -
  let ?a = "toLowerCase a" and ?w = "toLowerCase w" and ?b = "toLowerCase b"
  have a: "?a = [] \<or> \<not> is_space (last ?a)"
    using assms(3) by (auto simp: toLowerCase_def last_map is_space_lower)
  have b: "?b = [] \<or> \<not> is_space (hd ?b)"
    using assms(4) by (auto simp: toLowerCase_def hd_map is_space_lower)
  have w: "?w \<noteq> []" "\<forall>c \<in> set ?w. is_space c"
    using assms(1,2) by (auto simp: toLowerCase_def is_space_lower)
  have "replace_spaces (?a @ ?w @ ?b) = replace_spaces ?a @ replace_spaces (?w @ ?b)"
    using a by (rule replace_spaces_append)
  also have "replace_spaces (?w @ ?b) = CHR ''-'' # replace_spaces ?b"
    using w b by (rule replace_spaces_run)
  finally show ?thesis by (simp add: categoryToSlug_def toLowerCase_def)
qed

lemma slug_nda: "categoryToSlug ''NDA Activity'' = ''nda-activity''"
  by code_simp

lemma slug_fallback: "categoryToSlug ''Uncategorised'' = ''uncategorised''"
  by code_simp

lemma lower_alphabet:
  "toLowerCase ''ABCDEFGHIJKLMNOPQRSTUVWXYZ'' = ''abcdefghijklmnopqrstuvwxyz''"
  by code_simp

lemma or_else_falsy: "\<not> truthy c \<Longrightarrow> or_else c d = d"
  by (cases c) auto

lemma slug_all_spaces:
  "categoryToSlug (''Judicial'' @ [char_of (9 :: nat), char_of (10 :: nat), char_of (11 :: nat),
       char_of (12 :: nat), char_of (13 :: nat), char_of (32 :: nat), char_of (160 :: nat)] @ ''Cases'') =
     ''judicial-cases''"
  by code_simp

lemma lower_accented:
  "toLowerCase [char_of (192 :: nat), char_of (214 :: nat), char_of (215 :: nat),
       char_of (216 :: nat), char_of (222 :: nat), char_of (223 :: nat), CHR ''z'', CHR ''5''] =
     [char_of (224 :: nat), char_of (246 :: nat), char_of (215 :: nat), char_of (248 :: nat),
      char_of (254 :: nat), char_of (223 :: nat), CHR ''z'', CHR ''5'']"
  by code_simp

section \<open>The calendar\<close>

text \<open>
  \<open>YearFromDay\<close> is the year of the ECMAScript specification: the largest year that starts
  on or before the day.
\<close>

lemma DayFromYear_add:
  "DayFromYear y + 365 * int k \<le> DayFromYear (y + int k) \<and>
   DayFromYear (y + int k) \<le> DayFromYear y + 366 * int k"
proof (induction k)
  case 0
  then show ?case by simp
next
  case (Suc k)
  have "DayFromYear (y + int (Suc k)) = DayFromYear (y + int k) + DaysInYear (y + int k)"
    using DayFromYear_step [of "y + int k"] by (simp add: algebra_simps)
  with Suc DaysInYear_bounds [of "y + int k"] show ?case by simp
qed

lemma DayFromYear_strict_mono:
  assumes "y < y'"
  shows "DayFromYear y < DayFromYear y'"
proof -
  obtain k where k: "y' = y + int k" "0 < k"
    using assms by (metis zero_less_imp_eq_int add.commute diff_add_cancel diff_gt_0_iff_gt of_nat_0_less_iff)
  with DayFromYear_add [of y k] show ?thesis by simp
qed

lemma DayFromYear_1970: "DayFromYear 1970 = 0"
  by (simp add: DayFromYear_def)

lemma year_search_correct:
  "DayFromYear y \<le> d \<Longrightarrow>
   DayFromYear (year_search y d) \<le> d \<and> d < DayFromYear (year_search y d + 1)"
proof (induction y d rule: year_search.induct)
  case (1 y d)
  show ?case
  proof (cases "DayFromYear (y + 1) \<le> d")
    case True
    with 1 show ?thesis by (subst (1 2) year_search.simps) simp
  next
    case False
    with 1 show ?thesis by (subst (1 2) year_search.simps) simp
  qed
qed

lemma year_start_below:
  "DayFromYear (1970 + (if 0 \<le> d then d div 366 else d div 365)) \<le> d"
proof (cases "0 \<le> d")
  case True
  define k where "k = nat (d div 366)"
  have k: "int k = d div 366" using True by (simp add: k_def pos_imp_zdiv_nonneg_iff)
  have "DayFromYear (1970 + int k) \<le> 366 * int k"
    using DayFromYear_add [of 1970 k] by (simp add: DayFromYear_1970)
  moreover have "366 * (d div 366) \<le> d"
    by (metis mult.commute pos_mod_sign div_mult_mod_eq add.commute le_add_same_cancel2 zero_less_numeral)
  ultimately show ?thesis using True k by simp
next
  case False
  define j where "j = nat (- (d div 365))"
  have neg: "d div 365 < 0" using False by (simp add: div_neg_pos_less0)
  then have j: "int j = - (d div 365)" by (simp add: j_def)
  have "DayFromYear (1970 + d div 365) + 365 * int j \<le> DayFromYear (1970 + d div 365 + int j)"
    using DayFromYear_add [of "1970 + d div 365" j] by simp
  then have "DayFromYear (1970 + d div 365) \<le> 365 * (d div 365)"
    by (simp add: j DayFromYear_1970)
  moreover have "365 * (d div 365) \<le> d"
    by (metis mult.commute pos_mod_sign div_mult_mod_eq add.commute le_add_same_cancel2 zero_less_numeral)
  ultimately show ?thesis using False by simp
qed

lemma YearFromDay_correct:
  "DayFromYear (YearFromDay d) \<le> d \<and> d < DayFromYear (YearFromDay d + 1)"
  unfolding YearFromDay_def by (rule year_search_correct) (rule year_start_below)

lemma YearFromDay_unique:
  assumes "DayFromYear y \<le> d" "d < DayFromYear (y + 1)"
  shows "YearFromDay d = y"
proof (rule ccontr)
  assume n: "YearFromDay d \<noteq> y"
  let ?Y = "YearFromDay d"
  note c = YearFromDay_correct [of d]
  show False
  proof (cases "?Y < y")
    case True
    then have "?Y + 1 \<le> y" by simp
    then have "DayFromYear (?Y + 1) \<le> DayFromYear y"
      using DayFromYear_strict_mono [of "?Y + 1" y] by (cases "?Y + 1 = y") auto
    with c assms show False by simp
  next
    case False
    with n have "y + 1 \<le> ?Y" by simp
    then have "DayFromYear (y + 1) \<le> DayFromYear ?Y"
      using DayFromYear_strict_mono [of "y + 1" ?Y] by (cases "y + 1 = ?Y") auto
    with c assms show False by simp
  qed
qed

lemma leap_days_cases: "leap_days y = 0 \<or> leap_days y = 1"
  by (simp add: leap_days_def DaysInYear_def)

lemma month_cases:
  fixes m :: int
  assumes "0 \<le> m" "m \<le> 11"
  shows "m = 0 \<or> m = 1 \<or> m = 2 \<or> m = 3 \<or> m = 4 \<or> m = 5 \<or> m = 6 \<or> m = 7 \<or> m = 8 \<or>
    m = 9 \<or> m = 10 \<or> m = 11"
  using assms by arith

lemma month_start_12: "month_start (leap_days y) 12 = DaysInYear y"
  by (simp add: month_start_def leap_days_def)

lemma month_start_mono:
  assumes "l = 0 \<or> l = 1" "0 \<le> m" "m \<le> 11"
  shows "month_start l m < month_start l (m + 1)"
  using assms(1) month_cases [OF assms(2,3)]
  by (elim disjE) (simp_all add: month_start_def)

lemma month_start_le_year:
  assumes "l = 0 \<or> l = 1" "0 \<le> m" "m \<le> 12"
  shows "0 \<le> month_start l m \<and> month_start l m \<le> 365 + l"
proof (cases "m = 12")
  case True
  with assms(1) show ?thesis by (auto simp: month_start_def)
next
  case False
  with assms have "m \<le> 11" by simp
  from assms(1) month_cases [OF assms(2) this] show ?thesis
    by (elim disjE) (simp_all add: month_start_def)
qed

lemma month_from_day:
  assumes l: "l = 0 \<or> l = 1" and m: "0 \<le> m" "m \<le> 11"
    and d: "month_start l m \<le> dy" "dy < month_start l (m + 1)"
  shows "(if dy < month_start l 1 then 0 else if dy < month_start l 2 then 1
      else if dy < month_start l 3 then 2 else if dy < month_start l 4 then 3
      else if dy < month_start l 5 then 4 else if dy < month_start l 6 then 5
      else if dy < month_start l 7 then 6 else if dy < month_start l 8 then 7
      else if dy < month_start l 9 then 8 else if dy < month_start l 10 then 9
      else if dy < month_start l 11 then 10 else (11::int)) = m"
  using l month_cases [OF m] d
  by (elim disjE) (simp_all add: month_start_def)

lemma MonthFromTime_range: "0 \<le> MonthFromTime t \<and> MonthFromTime t \<le> 11"
  by (simp add: MonthFromTime_def Let_def)

lemma MakeDay_in_year:
  assumes "0 \<le> m" "m \<le> 11"
  shows "MakeDay y m d = DayFromYear y + month_start (leap_days y) m + d - 1"
  using assms by (simp add: MakeDay_def Let_def div_pos_pos_trivial mod_pos_pos_trivial)

text \<open>A time within day number \<open>MakeDay y (m - 1) d\<close> of a valid date has that date.\<close>

lemma civil_of_MakeDay:
  assumes v: "valid_date y m d" and t: "Day t = MakeDay y (m - 1) d"
  shows "YearFromTime t = y \<and> MonthFromTime t = m - 1 \<and> DateFromTime t = d"
proof -
  let ?l = "leap_days y"
  have m: "0 \<le> m - 1" "m - 1 \<le> 11" using v by (simp_all add: valid_date_def)
  have l: "?l = 0 \<or> ?l = 1" by (rule leap_days_cases)
  have dm: "1 \<le> d" "d \<le> month_start ?l m - month_start ?l (m - 1)"
    using v by (simp_all add: valid_date_def DaysInMonth_def)
  define dy where "dy = month_start ?l (m - 1) + d - 1"
  have day: "Day t = DayFromYear y + dy"
    using t MakeDay_in_year [OF m] by (simp add: dy_def)
  have lo: "month_start ?l (m - 1) \<le> dy" using dm by (simp add: dy_def)
  have hi: "dy < month_start ?l (m - 1 + 1)" using dm by (simp add: dy_def)
  have "0 \<le> month_start ?l (m - 1)"
    using month_start_le_year [OF l, of "m - 1"] m by simp
  with lo have dy0: "0 \<le> dy" by simp
  have "month_start ?l m \<le> 365 + ?l"
    using month_start_le_year [OF l, of m] v by (simp add: valid_date_def)
  with hi have dy1: "dy < DaysInYear y" by (simp add: leap_days_def)
  have "DayFromYear y \<le> Day t" using day dy0 by simp
  moreover have "Day t < DayFromYear (y + 1)"
    using day dy1 by (simp add: DayFromYear_step)
  ultimately have y: "YearFromTime t = y"
    unfolding YearFromTime_def by (rule YearFromDay_unique)
  have w: "DayWithinYear t = dy" by (simp add: DayWithinYear_def y day)
  have mo: "MonthFromTime t = m - 1"
    unfolding MonthFromTime_def Let_def y w
    by (rule month_from_day [OF l m lo hi])
  have "DateFromTime t = d"
    by (simp add: DateFromTime_def y w mo dy_def)
  with y mo show ?thesis by simp
qed

lemma date_string_civil:
  assumes "valid_date y m d" and "Day t = MakeDay y (m - 1) d"
  shows "date_string t = date_text y m d"
  using civil_of_MakeDay [OF assms] by (simp add: date_string_def date_text_def)

text \<open>The day number of the calendar successor is one more.\<close>

lemma MakeDay_next_date:
  assumes v: "valid_date y m d" and n: "next_date y m d = (y', m', d')"
  shows "valid_date y' m' d' \<and> MakeDay y' (m' - 1) d' = MakeDay y (m - 1) d + 1"
proof -
  let ?l = "leap_days y"
  have m: "0 \<le> m - 1" "m - 1 \<le> 11" using v by (simp_all add: valid_date_def)
  have l: "?l = 0 \<or> ?l = 1" by (rule leap_days_cases)
  show ?thesis
  proof (cases "d < DaysInMonth y m")
    case True
    with n have "y' = y" "m' = m" "d' = d + 1" by (simp_all add: next_date_def)
    with v True m show ?thesis by (simp add: valid_date_def MakeDay_in_year)
  next
    case False
    with v have d: "d = DaysInMonth y m" by (simp add: valid_date_def)
    show ?thesis
    proof (cases "m < 12")
      case True
      with n False have e: "y' = y" "m' = m + 1" "d' = 1" by (simp_all add: next_date_def)
      have m1: "0 \<le> m" "m \<le> 11" using v True by (simp_all add: valid_date_def)
      have "1 \<le> DaysInMonth y (m + 1)"
        using month_start_mono [OF l m1] by (simp add: DaysInMonth_def)
      with e m1 have "valid_date y' m' d'" by (simp add: valid_date_def)
      moreover have "MakeDay y m 1 = MakeDay y (m - 1) d + 1"
        by (simp add: MakeDay_in_year [OF m] MakeDay_in_year [OF m1] d DaysInMonth_def)
      ultimately show ?thesis using e by simp
    next
      case False
      with v have m12: "m = 12" by (simp add: valid_date_def)
      with n \<open>\<not> d < DaysInMonth y m\<close> have e: "y' = y + 1" "m' = 1" "d' = 1"
        by (simp_all add: next_date_def)
      have l': "leap_days (y + 1) = 0 \<or> leap_days (y + 1) = 1" by (rule leap_days_cases)
      have "valid_date (y + 1) 1 1"
        using l' by (auto simp: valid_date_def DaysInMonth_def month_start_def)
      moreover have "MakeDay (y + 1) 0 1 = MakeDay y 11 d + 1"
        using d m12 month_start_12 [of y]
        by (simp add: MakeDay_in_year DaysInMonth_def DayFromYear_step month_start_def)
      ultimately show ?thesis using e m12 by simp
    qed
  qed
qed

lemma MakeDay_of_parts: "MakeDay (YearFromTime t) (MonthFromTime t) (DateFromTime t + k) = Day t + k"
  using MonthFromTime_range [of t]
  by (simp add: MakeDay_in_year DateFromTime_def DayWithinYear_def)

lemma Day_TimeWithinDay: "MakeDate (Day t + 1) (TimeWithinDay t) = t + msPerDay"
  by (simp add: MakeDate_def Day_def TimeWithinDay_def algebra_simps)

text \<open>With a constant offset, \<open>setDate(getDate() + 1)\<close> adds 24 hours.\<close>

lemma setDate_next_constant:
  assumes "constant_zone env off"
  shows "setDate env (Some t) (map_option (\<lambda>n. n + 1) (getDate env (Some t))) =
    TimeClip (t + msPerDay)"
  using assms
  by (simp add: setDate_def getDate_def LocalTime_def UTC_def constant_zone_def Let_def
      MakeDay_of_parts Day_TimeWithinDay)

lemma Day_next: "Day (d * msPerDay + msPerDay) = d + 1" "Day (d * msPerDay) = d"
  by (simp_all add: Day_def msPerDay_def)

lemma DayFromYear_range:
  assumes "0 \<le> y" "y \<le> 9999"
  shows "- 721020 \<le> DayFromYear y \<and> DayFromYear y \<le> 2938614"
proof (cases "1970 \<le> y")
  case True
  define k where "k = nat (y - 1970)"
  have "y = 1970 + int k" using True by (simp add: k_def)
  with DayFromYear_add [of 1970 k] assms show ?thesis
    by (simp add: DayFromYear_1970)
next
  case False
  define k where "k = nat (1970 - y)"
  have "y + int k = 1970" using False by (simp add: k_def)
  with DayFromYear_add [of y k] assms show ?thesis
    by (simp add: DayFromYear_1970)
qed

lemma MakeDay_range:
  assumes "valid_date y m d" "0 \<le> y" "y \<le> 9999"
  shows "- 721020 \<le> MakeDay y (m - 1) d \<and> MakeDay y (m - 1) d \<le> 2938614 + 366"
proof -
  let ?l = "leap_days y"
  have m: "0 \<le> m - 1" "m - 1 \<le> 11" using assms(1) by (simp_all add: valid_date_def)
  have l: "?l = 0 \<or> ?l = 1" by (rule leap_days_cases)
  have a: "0 \<le> month_start ?l (m - 1)"
    using month_start_le_year [OF l, of "m - 1"] m by simp
  have b: "month_start ?l m \<le> 365 + ?l"
    using month_start_le_year [OF l, of m] assms(1) by (simp add: valid_date_def)
  have c: "1 \<le> d" "d \<le> month_start ?l m - month_start ?l (m - 1)"
    using assms(1) by (simp_all add: valid_date_def DaysInMonth_def)
  from a b c l DayFromYear_range [OF assms(2,3)] show ?thesis
    by (auto simp: MakeDay_in_year [OF m])
qed

lemma digit_chars: "map digit_char [0..<10] = map (\<lambda>v. char_of (48 + v)) [0..<10]"
  by code_simp

lemma digit_char_code:
  assumes "v < 10"
  shows "digit_char v = char_of (48 + v)"
proof -
  have "map digit_char [0..<10] ! v = map (\<lambda>v. char_of (48 + v)) [0..<10] ! v"
    by (simp only: digit_chars)
  with assms show ?thesis by simp
qed

lemma of_char_digit_char: "v < 10 \<Longrightarrow> (of_char (digit_char v) :: nat) = 48 + v"
  by (simp add: digit_char_code)

lemma digit_val_Some:
  assumes "digit_val c = Some v"
  shows "v < 10 \<and> digit_char v = c"
proof -
  from assms have n: "48 \<le> (of_char c :: nat)" "(of_char c :: nat) \<le> 57" "v = of_char c - 48"
    by (auto simp: digit_val_def Let_def split: if_splits)
  then have v: "v < 10" by simp
  have "char_of (48 + v) = c" using n by simp
  with v show ?thesis by (simp add: digit_char_code)
qed

lemma digits2:
  assumes "digits_val [a, b] = Some v"
  shows "v < 100 \<and> pad2 v = [a, b]"
proof -
  from assms obtain va vb where d: "digit_val a = Some va" "digit_val b = Some vb"
    and v: "v = 10 * va + vb"
    by (auto simp: digits_val_def split: option.splits)
  from d digit_val_Some have r: "va < 10" "vb < 10" "digit_char va = a" "digit_char vb = b"
    by blast+
  have "v div 10 mod 10 = va" "v mod 10 = vb" using r(1,2) v by simp_all
  with r v show ?thesis by (simp add: pad2_def)
qed

lemma digits4:
  assumes "digits_val [a, b, c, d] = Some v"
  shows "v < 10000 \<and> pad4 v = [a, b, c, d]"
proof -
  from assms obtain va vb vc vd where
    e: "digit_val a = Some va" "digit_val b = Some vb" "digit_val c = Some vc" "digit_val d = Some vd"
    and v: "v = 10 * (10 * (10 * va + vb) + vc) + vd"
    by (auto simp: digits_val_def split: option.splits)
  from e digit_val_Some have r: "va < 10" "vb < 10" "vc < 10" "vd < 10"
    "digit_char va = a" "digit_char vb = b" "digit_char vc = c" "digit_char vd = d"
    by blast+
  define x2 where "x2 = 10 * va + vb"
  define x1 where "x1 = 10 * x2 + vc"
  have v1: "v = 10 * x1 + vd" by (simp add: v x1_def x2_def)
  have a1: "v div 10 = x1" "v mod 10 = vd" using r(4) by (simp_all add: v1)
  have a2: "x1 div 10 = x2" "x1 mod 10 = vc" using r(3) by (simp_all add: x1_def)
  have a3: "x2 div 10 = va" "x2 mod 10 = vb" using r(2) by (simp_all add: x2_def)
  have h: "v div 100 = x2" using a1 a2 div_mult2_eq [of v 10 10] by simp
  have k: "v div 1000 = va" using h a3 div_mult2_eq [of v 100 10] by simp
  have lt: "v < 10000" using r(1-4) by (simp add: v)
  have "v div 1000 mod 10 = va" "v div 100 mod 10 = vb" "v div 10 mod 10 = vc" "v mod 10 = vd"
    using r(1) by (simp_all add: k h a1 a2 a3)
  with r lt show ?thesis by (simp add: pad4_def pad3_def pad2_def)
qed

lemma list10:
  assumes "length s = 10"
  shows "s = [s ! 0, s ! 1, s ! 2, s ! 3, s ! 4, s ! 5, s ! 6, s ! 7, s ! 8, s ! 9]"
proof -
  have u: "[0..<10] = [0, 1, 2, 3, 4, 5, 6, 7, 8, 9 :: nat]" by code_simp
  have "s = map (nth s) [0..<length s]" by (simp add: map_nth)
  then show ?thesis unfolding assms u by simp
qed

lemma parse_date_only_Some:
  assumes "parse_date_only s = Some (y, m, d)"
  shows "valid_date y m d \<and> 0 \<le> y \<and> y \<le> 9999 \<and> s = date_text y m d"
proof -
  from assms have len: "length s = 10" and dash: "s ! 4 = CHR ''-''" "s ! 7 = CHR ''-''"
    by (auto simp: parse_date_only_def split: if_splits)
  note s = list10 [OF len]
  have t4: "take 4 s = [s ! 0, s ! 1, s ! 2, s ! 3]" by (subst s) simp
  have t2: "take 2 (drop 5 s) = [s ! 5, s ! 6]" by (subst s) simp
  have d8: "drop 8 s = [s ! 8, s ! 9]" by (subst s) simp
  from assms len dash obtain ny nm nd where
    p: "digits_val (take 4 s) = Some ny" "digits_val (take 2 (drop 5 s)) = Some nm"
       "digits_val (drop 8 s) = Some nd"
    and c: "1 \<le> nm" "nm \<le> 12" "1 \<le> nd" "int nd \<le> DaysInMonth (int ny) (int nm)"
    and e: "y = int ny" "m = int nm" "d = int nd"
    by (auto simp: parse_date_only_def split: if_splits option.splits)
  from p(1) digits4 have y4: "ny < 10000" "pad4 ny = [s ! 0, s ! 1, s ! 2, s ! 3]"
    unfolding t4 by blast+
  from p(2) digits2 have m2: "pad2 nm = [s ! 5, s ! 6]" unfolding t2 by blast
  from p(3) digits2 have d2: "pad2 nd = [s ! 8, s ! 9]" unfolding d8 by blast
  have v: "valid_date y m d" using c e by (simp add: valid_date_def)
  have r: "0 \<le> y" "y \<le> 9999" using y4(1) e by simp_all
  have "date_text y m d = [s ! 0, s ! 1, s ! 2, s ! 3, CHR ''-'', s ! 5, s ! 6, CHR ''-'', s ! 8, s ! 9]"
    using r by (simp add: date_text_def year_string_def e y4 m2 d2)
  also have "\<dots> = s" using s dash by simp
  finally show ?thesis using v r by simp
qed

lemma str_lt_same_prefix: "str_lt (p @ u) (p @ v) = str_lt u v"
  by (induction p) simp_all

lemma two_digits:
  fixes a b :: nat
  assumes "a < b"
  shows "a div 10 < b div 10 \<or> (a div 10 = b div 10 \<and> a mod 10 < b mod 10)"
proof (cases "a div 10 < b div 10")
  case True
  then show ?thesis by simp
next
  case False
  moreover have "a div 10 \<le> b div 10" using assms by (simp add: div_le_mono)
  ultimately have e: "a div 10 = b div 10" by simp
  have "a = 10 * (a div 10) + a mod 10" "b = 10 * (b div 10) + b mod 10" by simp_all
  with e assms have "a mod 10 < b mod 10" by linarith
  with e show ?thesis by simp
qed

lemma pad2_lt:
  assumes "a < b" "b < 100"
  shows "str_lt (pad2 a @ r) (pad2 b @ r')"
proof -
  have d: "a div 10 mod 10 = a div 10" "b div 10 mod 10 = b div 10" "b div 10 < 10"
    using assms by simp_all
  from two_digits [OF assms(1)] show ?thesis
  proof
    assume "a div 10 < b div 10"
    with d have "(of_char (digit_char (a div 10)) :: nat) < of_char (digit_char (b div 10))"
      by (simp add: of_char_digit_char)
    with d show ?thesis by (simp add: pad2_def)
  next
    assume e: "a div 10 = b div 10 \<and> a mod 10 < b mod 10"
    then have "(of_char (digit_char (a mod 10)) :: nat) < of_char (digit_char (b mod 10))"
      by (simp add: of_char_digit_char)
    with e show ?thesis by (simp add: pad2_def)
  qed
qed

lemma pad4_split: "pad4 k = pad2 (k div 100) @ pad2 (k mod 100)"
proof -
  have a: "k div 100 div 10 = k div 1000" using div_mult2_eq [of k 100 10] by simp
  have "k mod (10 * 10) = 10 * (k div 10 mod 10) + k mod 10" by (rule mod_mult2_eq)
  then have m: "k mod 100 = 10 * (k div 10 mod 10) + k mod 10" by simp
  have b: "k mod 100 div 10 = k div 10 mod 10" by (subst m) simp
  have c: "k mod 100 mod 10 = k mod 10" by (subst m) simp
  show ?thesis by (simp add: pad4_def pad3_def pad2_def a b c)
qed

lemma pad4_lt:
  assumes "a < b" "b < 10000"
  shows "str_lt (pad4 a @ r) (pad4 b @ r')"
proof (cases "a div 100 < b div 100")
  case True
  moreover have "b div 100 < 100" using assms(2) by simp
  ultimately have "str_lt (pad2 (a div 100) @ (pad2 (a mod 100) @ r))
      (pad2 (b div 100) @ (pad2 (b mod 100) @ r'))"
    by (rule pad2_lt)
  then show ?thesis by (simp add: pad4_split)
next
  case False
  moreover have "a div 100 \<le> b div 100" using assms(1) by (simp add: div_le_mono)
  ultimately have e: "a div 100 = b div 100" by simp
  have "a = 100 * (a div 100) + a mod 100" "b = 100 * (b div 100) + b mod 100" by simp_all
  with e assms(1) have "a mod 100 < b mod 100" by linarith
  moreover have "b mod 100 < 100" by simp
  ultimately have "str_lt (pad2 (a mod 100) @ r) (pad2 (b mod 100) @ r')"
    by (rule pad2_lt)
  then show ?thesis by (simp add: pad4_split e str_lt_same_prefix)
qed

lemma DaysInMonth_le:
  assumes "1 \<le> m" "m \<le> 12"
  shows "DaysInMonth y m \<le> 31"
proof -
  have m: "0 \<le> m - 1" "m - 1 \<le> 11" using assms by simp_all
  from leap_days_cases [of y] month_cases [OF m] show ?thesis
    by (elim disjE) (simp_all add: DaysInMonth_def month_start_def)
qed

lemma date_text_next_lt:
  assumes v: "valid_date y m d" and r: "0 \<le> y" "y \<le> 9999"
    and n: "next_date y m d = (y', m', d')" and y': "y' \<le> 9999"
  shows "str_lt (date_text y m d @ rest) (date_text y' m' d')"
proof -
  have mb: "1 \<le> m" "m \<le> 12" and db: "1 \<le> d" "d \<le> DaysInMonth y m"
    using v by (simp_all add: valid_date_def)
  have d31: "d \<le> 31" using db(2) DaysInMonth_le [OF mb, of y] by simp
  show ?thesis
  proof (cases "d < DaysInMonth y m")
    case True
    with n have e: "y' = y" "m' = m" "d' = d + 1" by (simp_all add: next_date_def)
    have "nat d < nat (d + 1)" "nat (d + 1) < 100" using db d31 by simp_all
    then have "str_lt (pad2 (nat d) @ rest) (pad2 (nat (d + 1)) @ [])" by (rule pad2_lt)
    then have "str_lt ((year_string y @ ''-'' @ pad2 (nat m) @ ''-'') @ pad2 (nat d) @ rest)
        ((year_string y @ ''-'' @ pad2 (nat m) @ ''-'') @ pad2 (nat (d + 1)))"
      by (simp only: str_lt_same_prefix append_Nil2)
    then show ?thesis by (simp add: date_text_def e)
  next
    case False
    show ?thesis
    proof (cases "m < 12")
      case True
      with n False have e: "y' = y" "m' = m + 1" "d' = 1" by (simp_all add: next_date_def)
      have "nat m < nat (m + 1)" "nat (m + 1) < 100" using mb by simp_all
      then have "str_lt (pad2 (nat m) @ (''-'' @ pad2 (nat d) @ rest))
          (pad2 (nat (m + 1)) @ (''-'' @ pad2 (nat 1)))"
        by (rule pad2_lt)
      then have "str_lt ((year_string y @ ''-'') @ pad2 (nat m) @ (''-'' @ pad2 (nat d) @ rest))
          ((year_string y @ ''-'') @ pad2 (nat (m + 1)) @ (''-'' @ pad2 (nat 1)))"
        by (simp only: str_lt_same_prefix)
      then show ?thesis by (simp add: date_text_def e)
    next
      case False
      with n \<open>\<not> d < DaysInMonth y m\<close> have e: "y' = y + 1" "m' = 1" "d' = 1"
        by (simp_all add: next_date_def)
      have "nat y < nat (y + 1)" "nat (y + 1) < 10000" using r y' e by simp_all
      then have "str_lt (pad4 (nat y) @ (''-'' @ pad2 (nat m) @ ''-'' @ pad2 (nat d) @ rest))
          (pad4 (nat (y + 1)) @ (''-'' @ pad2 (nat 1) @ ''-'' @ pad2 (nat 1)))"
        by (rule pad4_lt)
      moreover have "year_string y = pad4 (nat y)" "year_string (y + 1) = pad4 (nat (y + 1))"
        using r y' e by (simp_all add: year_string_def)
      ultimately show ?thesis by (simp add: date_text_def e)
    qed
  qed
qed

lemma next_date_year:
  assumes "valid_date y m d" "y \<le> 9999" "(y, m, d) \<noteq> (9999, 12, 31)"
    and "next_date y m d = (y', m', d')"
  shows "y' \<le> 9999"
proof (cases "y = 9999 \<and> m = 12")
  case False
  with assms show ?thesis
    by (auto simp: next_date_def valid_date_def split: if_splits)
next
  case True
  have "DaysInMonth 9999 12 = 31" by (simp add: DaysInMonth_def month_start_def)
  with True assms show ?thesis
    by (auto simp: next_date_def valid_date_def split: if_splits)
qed

text \<open>With a constant offset, the bound of the end-date predicate is the next calendar day.\<close>

lemma isoNext_constant_zone:
  assumes z: "constant_zone env off" and p: "parse_date_only D = Some (y, m, d)"
    and n: "next_date y m d = (y', m', d')"
  shows "isoNext env D = Inr (date_text y' m' d')"
proof -
  from parse_date_only_Some [OF p] have v: "valid_date y m d" and r: "0 \<le> y" "y \<le> 9999"
    by simp_all
  define t0 where "t0 = MakeDay y (m - 1) d * msPerDay"
  from MakeDay_range [OF v r] have b: "\<bar>t0\<bar> \<le> 8640000000000000"
    "\<bar>t0 + msPerDay\<bar> \<le> 8640000000000000"
    unfolding t0_def msPerDay_def by linarith+
  have e0: "newDate env D = Some t0"
    using b(1) by (simp add: newDate_def p MakeDate_def TimeClip_def t0_def)
  have e1: "setDate env (Some t0) (map_option (\<lambda>n. n + 1) (getDate env (Some t0))) =
      Some (t0 + msPerDay)"
    using b(2) by (simp add: setDate_next_constant [OF z] TimeClip_def)
  from MakeDay_next_date [OF v n] have v': "valid_date y' m' d'"
    and "MakeDay y' (m' - 1) d' = MakeDay y (m - 1) d + 1" by simp_all
  then have "Day (t0 + msPerDay) = MakeDay y' (m' - 1) d'"
    by (simp add: t0_def Day_next)
  with v' have ds: "date_string (t0 + msPerDay) = date_text y' m' d'"
    by (rule date_string_civil)
  show ?thesis
    using split_head_date [of "t0 + msPerDay" "time_string (t0 + msPerDay) @ ''Z''"]
    by (simp add: isoNext_def Let_def e0 e1 toISOString_def ds)
qed

text \<open>
  In a zone with a constant offset the end date is inclusive: for an end date of the form
  \<open>YYYY-MM-DD\<close> other than 9999-12-31, \<open>applyFilters\<close> does not throw, every story it keeps
  is below the text of the next calendar day, and a story whose \<open>pubDate\<close> starts with the
  end date is kept exactly when the other predicates keep it.
\<close>

theorem end_date_inclusive_in_constant_zone:
  assumes "constant_zone env off"
    and "parse_date_only (endInput s) = Some (y, m, d)"
    and "(y, m, d) \<noteq> (9999, 12, 31)"
  shows "\<exists>s' y' m' d'. next_date y m d = (y', m', d')
     \<and> isoNext env (endInput s) = Inr (date_text y' m' d')
     \<and> applyFilters env s = Inr s'
     \<and> (\<forall>x \<in> set (filteredStories s'). str_lt (pubDate x) (date_text y' m' d'))
     \<and> (\<forall>x \<in> set (stories s). prefix (endInput s) (pubDate x) \<longrightarrow>
          (x \<in> set (filteredStories s') \<longleftrightarrow>
           selected (startInput s) None (categorySelect s) (districtSelect s) x))"
proof -
  obtain y' m' d' where n: "next_date y m d = (y', m', d')"
    by (cases "next_date y m d") auto
  from parse_date_only_Some [OF assms(2)] have v: "valid_date y m d"
    and r: "0 \<le> y" "y \<le> 9999" and D: "endInput s = date_text y m d"
    by simp_all
  have ne: "endInput s \<noteq> []" by (simp add: D date_text_def pad2_def)
  have i: "isoNext env (endInput s) = Inr (date_text y' m' d')"
    using assms(1,2) n by (rule isoNext_constant_zone)
  let ?s' = "renderPage env 1
      (s\<lparr>filteredStories :=
           filter (selected (startInput s) (Some (date_text y' m' d')) (categorySelect s)
             (districtSelect s)) (stories s),
         currentPage := 1\<rparr>)"
  have a: "applyFilters env s = Inr ?s'" using ne i by (rule applyFilters_end)
  have y': "y' \<le> 9999" using v r(2) assms(3) n by (rule next_date_year)
  have lt: "\<forall>x \<in> set (filteredStories ?s'). str_lt (pubDate x) (date_text y' m' d')"
    by (simp add: renderPage_fields selected_def)
  have keep: "\<forall>x \<in> set (stories s). prefix (endInput s) (pubDate x) \<longrightarrow>
      (x \<in> set (filteredStories ?s') \<longleftrightarrow>
       selected (startInput s) None (categorySelect s) (districtSelect s) x)"
  proof (intro ballI impI)
    fix x
    assume x: "x \<in> set (stories s)" and "prefix (endInput s) (pubDate x)"
    then obtain rest where "pubDate x = date_text y m d @ rest"
      by (auto simp: prefix_def D)
    then have "str_lt (pubDate x) (date_text y' m' d')"
      using date_text_next_lt [OF v r n y', of rest] by simp
    with x show "x \<in> set (filteredStories ?s') \<longleftrightarrow>
        selected (startInput s) None (categorySelect s) (districtSelect s) x"
      by (simp add: renderPage_fields selected_def)
  qed
  from n i a lt keep show ?thesis by blast
qed

lemma fixed_zone_constant: "constant_zone (fixed_zone off) off"
  by (simp add: constant_zone_def fixed_zone_def)

section \<open>The claims\<close>

text \<open>
  C1 (as amended).  For every clock reading that a Date can hold, every environment and
  every page, the today button does not throw; it keeps the first 50, in their order, of
  the stories whose \<open>pubDate\<close> starts with the UTC calendar date of the clock reading
  (the date part of \<open>toISOString\<close>), sets \<open>itemsPerPage\<close> to 50 and \<open>currentPage\<close> to 1, leaves
  the story collection and the five input elements as they were, and renders the kept
  stories.
\<close>

theorem C1_today_utc:
  assumes "\<bar>now\<bar> \<le> 8640000000000000"
  shows "\<exists>s'. todayClicked env now s = (s', None)
     \<and> filteredStories s' =
         take 50 (filter (\<lambda>x. prefix (date_string now) (pubDate x)) (stories s))
     \<and> itemsPerPage s' = 50 \<and> currentPage s' = 1
     \<and> stories s' = stories s
     \<and> startInput s' = startInput s \<and> endInput s' = endInput s
     \<and> categorySelect s' = categorySelect s \<and> districtSelect s' = districtSelect s
     \<and> itemsSelect s' = itemsSelect s
     \<and> newsContainer s' = render env (filteredStories s')"
proof -
  let ?f = "take 50 (filter (\<lambda>x. prefix (date_string now) (pubDate x)) (stories s))"
  let ?t = "s\<lparr>filteredStories := ?f, itemsPerPage := 50, currentPage := 1\<rparr>"
  have "pageItems ?t 1 = take 50 ?f"
    using pageItems_first [of ?t] by simp
  then have "pageItems ?t 1 = ?f" by simp
  then show ?thesis
    by (simp add: todayClicked_utc [OF assms] renderPage_def)
qed

theorem C1_witness:
  "\<bar>1714595400000 :: int\<bar> \<le> 8640000000000000
   \<and> (\<exists>s'. todayClicked india 1714595400000 (page_with india two_days) = (s', None)
          \<and> filteredStories s' = [mk_story ''2024-05-01T09:00'' JUndefined JUndefined]
          \<and> itemsPerPage s' = 50 \<and> currentPage s' = 1)"
proof -
  have a: "\<bar>1714595400000 :: int\<bar> \<le> 8640000000000000" by simp
  have "take 50 (filter (\<lambda>x. prefix (date_string 1714595400000) (pubDate x)) two_days) =
      [mk_story ''2024-05-01T09:00'' JUndefined JUndefined]"
    unfolding date_string_example by (simp add: two_days_def mk_story_def)
  with C1_today_utc [OF a, of india "page_with india two_days"] a
  show ?thesis by (auto simp: page_with_fields)
qed

text \<open>
  C1 as stated fails.  In India at 2024-05-01T20:30Z the local date is 2024-05-02; the
  button keeps the story of 2024-05-01, where the local-date prefix filter keeps the story
  of 2024-05-02.
\<close>

theorem C1_counterexample:
  "local_date_string india 1714595400000 = ''2024-05-02''
   \<and> filteredStories (fst (todayClicked india 1714595400000 (page_with india two_days))) =
       [mk_story ''2024-05-01T09:00'' JUndefined JUndefined]
   \<and> take 50 (filter (\<lambda>x. startsWith (pubDate x) (local_date_string india 1714595400000))
         (stories (page_with india two_days))) =
       [mk_story ''2024-05-02T09:00'' JUndefined JUndefined]"
proof -
  have a: "\<bar>1714595400000 :: int\<bar> \<le> 8640000000000000" by simp
  have c: "filteredStories (fst (todayClicked india 1714595400000 (page_with india two_days))) =
      [mk_story ''2024-05-01T09:00'' JUndefined JUndefined]"
    unfolding todayClicked_utc [OF a] date_string_example
    by (simp add: renderPage_def page_with_fields two_days_def mk_story_def)
  have d: "take 50 (filter (\<lambda>x. startsWith (pubDate x) (local_date_string india 1714595400000))
         (stories (page_with india two_days))) =
       [mk_story ''2024-05-02T09:00'' JUndefined JUndefined]"
    unfolding local_date_example
    by (simp add: page_with_fields two_days_def mk_story_def startsWith_def)
  from local_date_example c d show ?thesis by blast
qed

text \<open>
  C2 (the code at the failing input).  A viewer on Central European Time chooses the end
  date 2024-03-31, the day the clocks go forward.  \<open>setDate\<close> adds one local day, which is
  23 hours here, so \<open>isoNext\<close> is again \<open>2024-03-31\<close> and the story of 09:00 on the chosen day
  is filtered out.  In a zone without clock changes the bound is \<open>2024-04-01\<close> and the
  story is kept.
\<close>

theorem C2_end_day_lost_on_clock_change:
  "parse_date_only ''2024-03-31'' = Some (2024, 3, 31)
   \<and> take 10 (pubDate dst_story) = ''2024-03-31''
   \<and> isoNext berlin2024 ''2024-03-31'' = Inr ''2024-03-31''
   \<and> snd (dispatch berlin2024 (EndChange ''2024-03-31'') (page_with berlin2024 [dst_story])) = None
   \<and> filteredStories (fst (dispatch berlin2024 (EndChange ''2024-03-31'')
        (page_with berlin2024 [dst_story]))) = []
   \<and> isoNext india ''2024-03-31'' = Inr ''2024-04-01''
   \<and> filteredStories (fst (dispatch india (EndChange ''2024-03-31'')
        (page_with india [dst_story]))) = [dst_story]"
proof -
  have p: "parse_date_only ''2024-03-31'' = Some (2024, 3, 31)" by code_simp
  have t: "take 10 (pubDate dst_story) = ''2024-03-31''"
    by (simp add: dst_story_def mk_story_def)
  have b: "filter (\<lambda>x. str_lt (pubDate x) ''2024-03-31'') [dst_story] = []"
    by (simp add: dst_story_def mk_story_def)
  have i: "filter (\<lambda>x. str_lt (pubDate x) ''2024-04-01'') [dst_story] = [dst_story]"
    by (simp add: dst_story_def mk_story_def)
  have ne: "''2024-03-31'' \<noteq> []" by simp
  note db = end_changed [OF ne isoNext_berlin, of "[dst_story]"]
  note di = end_changed [OF ne isoNext_india, of "[dst_story]"]
  show ?thesis
    unfolding db di fst_conv snd_conv
    using p t isoNext_berlin isoNext_india b i
    by (simp add: renderPage_fields)
qed

text \<open>
  C3.  For a page number and a page size of at least 1, the Paginator returns the
  contiguous slice of the filtered stories over the index range from
  \<open>(page - 1) * itemsPerPage\<close> up to, not including, \<open>page * itemsPerPage\<close>, cut off at the
  end of the collection: it is \<open>take\<close> of \<open>drop\<close>, its length and its elements are those of
  the index range, and a page past the end is empty and renders the empty-state
  paragraph.  With 125 filtered stories and a page size of 50 there are 3 pages, page 3
  is the last 25 stories and page 4 is empty.
\<close>

theorem C3_paginator:
  assumes "1 \<le> page" and "1 \<le> itemsPerPage s"
  shows "pageItems s page =
           take (nat (itemsPerPage s)) (drop (nat ((page - 1) * itemsPerPage s)) (filteredStories s))
       \<and> length (pageItems s page) =
           min (nat (itemsPerPage s)) (length (filteredStories s) - nat ((page - 1) * itemsPerPage s))
       \<and> (\<forall>i < length (pageItems s page).
             pageItems s page ! i = filteredStories s ! (nat ((page - 1) * itemsPerPage s) + i))
       \<and> (int (length (filteredStories s)) \<le> (page - 1) * itemsPerPage s \<longrightarrow>
             pageItems s page = [] \<and>
             newsContainer (renderPage env page s) =
               Paragraph ''No news articles match the selected filters.'')
       \<and> (length (filteredStories s) = 125 \<and> itemsPerPage s = 50 \<longrightarrow>
             totalPages s = 3 \<and> pageItems s 3 = drop 100 (filteredStories s) \<and>
             length (pageItems s 3) = 25 \<and> pageItems s 4 = [])"
proof -
  let ?xs = "filteredStories s" and ?n = "itemsPerPage s"
  have td: "pageItems s page = take (nat ?n) (drop (nat ((page - 1) * ?n)) ?xs)"
    using assms by (rule pageItems_take_drop)
  have len: "length (pageItems s page) = min (nat ?n) (length ?xs - nat ((page - 1) * ?n))"
    by (simp add: td min.commute)
  have nth: "\<forall>i < length (pageItems s page).
      pageItems s page ! i = ?xs ! (nat ((page - 1) * ?n) + i)"
  proof (intro allI impI)
    fix i
    assume "i < length (pageItems s page)"
    then have i: "i < length ?xs - nat ((page - 1) * ?n)" "i < nat ?n"
      by (simp_all add: td)
    then have "nat ((page - 1) * ?n) \<le> length ?xs" by linarith
    with i show "pageItems s page ! i = ?xs ! (nat ((page - 1) * ?n) + i)"
      by (simp add: td)
  qed
  have past: "int (length ?xs) \<le> (page - 1) * ?n \<longrightarrow>
      pageItems s page = [] \<and>
      newsContainer (renderPage env page s) = Paragraph ''No news articles match the selected filters.''"
  proof
    assume "int (length ?xs) \<le> (page - 1) * ?n"
    then have "length ?xs \<le> nat ((page - 1) * ?n)" by linarith
    then have "pageItems s page = []" by (simp add: td)
    then show "pageItems s page = [] \<and>
      newsContainer (renderPage env page s) = Paragraph ''No news articles match the selected filters.''"
      by (simp add: renderPage_def render_def)
  qed
  have ex: "length ?xs = 125 \<and> ?n = 50 \<longrightarrow>
      totalPages s = 3 \<and> pageItems s 3 = drop 100 ?xs \<and> length (pageItems s 3) = 25 \<and>
      pageItems s 4 = []"
  proof
    assume a: "length ?xs = 125 \<and> ?n = 50"
    then have t: "totalPages s = 3" by (simp add: totalPages_div)
    have p3: "pageItems s 3 = take 50 (drop 100 ?xs)"
      using a pageItems_take_drop [of 3 s] by simp
    have p4: "pageItems s 4 = take 50 (drop 150 ?xs)"
      using a pageItems_take_drop [of 4 s] by simp
    from a t p3 p4 show "totalPages s = 3 \<and> pageItems s 3 = drop 100 ?xs \<and>
      length (pageItems s 3) = 25 \<and> pageItems s 4 = []"
      by simp
  qed
  from td len nth past ex show ?thesis by blast
qed

theorem C3_witness:
  "(1::int) \<le> 3 \<and> 1 \<le> itemsPerPage (page_with india (many_stories 125))
   \<and> totalPages (page_with india (many_stories 125)) = 3
   \<and> pageItems (page_with india (many_stories 125)) 3 = drop 100 (many_stories 125)
   \<and> length (pageItems (page_with india (many_stories 125)) 3) = 25
   \<and> pageItems (page_with india (many_stories 125)) 4 = []"
proof -
  let ?s = "page_with india (many_stories 125)"
  have a: "(1::int) \<le> 3" and b: "1 \<le> itemsPerPage ?s"
    by (simp_all add: page_with_fields)
  have h: "length (filteredStories ?s) = 125 \<and> itemsPerPage ?s = 50"
    by (simp add: page_with_fields many_stories_length)
  from C3_paginator [OF a b, where env = india] h
  have "totalPages ?s = 3 \<and> pageItems ?s 3 = drop 100 (filteredStories ?s) \<and>
      length (pageItems ?s 3) = 25 \<and> pageItems ?s 4 = []"
    by blast
  with a b show ?thesis by (simp add: page_with_fields many_stories_length)
qed

text \<open>
  C4.  \<open>applyFilters\<close> throws only when the end date cannot be converted; otherwise it keeps
  exactly the stories that satisfy every active predicate (logical AND).  With only a
  category and a district chosen, neither of them empty or \<open>All\<close>, the result is exactly
  the stories that have that category and that district, and its elements are the
  intersection of the two single-filter results.  A category or district that is empty
  or \<open>All\<close> contributes no predicate.
\<close>

theorem C4_filters_conjoin:
  "(case applyFilters env s of
      Inl e \<Rightarrow> endInput s \<noteq> [] \<and> isoNext env (endInput s) = Inl e
    | Inr s' \<Rightarrow>
        filteredStories s' =
          filter (selected (startInput s) (end_limit env (endInput s)) (categorySelect s)
            (districtSelect s)) (stories s)
      \<and> (startInput s = [] \<and> endInput s = [] \<and>
           categorySelect s \<notin> {[], ''All''} \<and> districtSelect s \<notin> {[], ''All''} \<longrightarrow>
           filteredStories s' =
             filter (\<lambda>x. category x = JString (categorySelect s) \<and>
                         district x = JString (districtSelect s)) (stories s)
         \<and> set (filteredStories s') =
             set (filter (\<lambda>x. category x = JString (categorySelect s)) (stories s)) \<inter>
             set (filter (\<lambda>x. district x = JString (districtSelect s)) (stories s)))
      \<and> (categorySelect s \<in> {[], ''All''} \<longrightarrow>
           filteredStories s' =
             filter (\<lambda>x. (startInput s = [] \<or> str_ge (pubDate x) (startInput s)) \<and>
                         (case end_limit env (endInput s) of None \<Rightarrow> True
                          | Some n \<Rightarrow> str_lt (pubDate x) n) \<and>
                         (districtSelect s \<in> {[], ''All''} \<or>
                          district x = JString (districtSelect s))) (stories s))
      \<and> (districtSelect s \<in> {[], ''All''} \<longrightarrow>
           filteredStories s' =
             filter (\<lambda>x. (startInput s = [] \<or> str_ge (pubDate x) (startInput s)) \<and>
                         (case end_limit env (endInput s) of None \<Rightarrow> True
                          | Some n \<Rightarrow> str_lt (pubDate x) n) \<and>
                         (categorySelect s \<in> {[], ''All''} \<or>
                          category x = JString (categorySelect s))) (stories s)))"
proof (cases "applyFilters env s")
  case (Inl e)
  with applyFilters_result [where env = env and s = s] show ?thesis by simp
next
  case (Inr s')
  let ?P = "selected (startInput s) (end_limit env (endInput s)) (categorySelect s) (districtSelect s)"
  have f: "filteredStories s' = filter ?P (stories s)"
    using applyFilters_Inr [OF Inr] by (simp add: renderPage_def)
  have both: "startInput s = [] \<and> endInput s = [] \<and>
      categorySelect s \<notin> {[], ''All''} \<and> districtSelect s \<notin> {[], ''All''} \<longrightarrow>
      filteredStories s' =
        filter (\<lambda>x. category x = JString (categorySelect s) \<and>
                    district x = JString (districtSelect s)) (stories s)
    \<and> set (filteredStories s') =
        set (filter (\<lambda>x. category x = JString (categorySelect s)) (stories s)) \<inter>
        set (filter (\<lambda>x. district x = JString (districtSelect s)) (stories s))"
    unfolding f by (auto simp: selected_def end_limit_def intro!: filter_cong)
  have nocat: "categorySelect s \<in> {[], ''All''} \<longrightarrow>
      filteredStories s' =
        filter (\<lambda>x. (startInput s = [] \<or> str_ge (pubDate x) (startInput s)) \<and>
                    (case end_limit env (endInput s) of None \<Rightarrow> True
                     | Some n \<Rightarrow> str_lt (pubDate x) n) \<and>
                    (districtSelect s \<in> {[], ''All''} \<or>
                     district x = JString (districtSelect s))) (stories s)"
    unfolding f by (auto simp: selected_def intro!: filter_cong)
  have nodis: "districtSelect s \<in> {[], ''All''} \<longrightarrow>
      filteredStories s' =
        filter (\<lambda>x. (startInput s = [] \<or> str_ge (pubDate x) (startInput s)) \<and>
                    (case end_limit env (endInput s) of None \<Rightarrow> True
                     | Some n \<Rightarrow> str_lt (pubDate x) n) \<and>
                    (categorySelect s \<in> {[], ''All''} \<or>
                     category x = JString (categorySelect s))) (stories s)"
    unfolding f by (auto simp: selected_def intro!: filter_cong)
  show ?thesis
    unfolding Inr sum.case
    by (intro conjI) (fact f, fact both, fact nocat, fact nodis)
qed

theorem C4_witness:
  "\<exists>s'. applyFilters india ((page_with india four_stories)
         \<lparr>categorySelect := ''Governance issues'', districtSelect := ''Lucknow''\<rparr>) = Inr s'
       \<and> filteredStories s' = [s_both]"
proof -
  let ?s = "(page_with india four_stories)
         \<lparr>categorySelect := ''Governance issues'', districtSelect := ''Lucknow''\<rparr>"
  obtain s' where s: "applyFilters india ?s = Inr s'"
    by (simp add: applyFilters_no_end page_with_fields)
  have "filteredStories s' =
      filter (\<lambda>x. category x = JString ''Governance issues'' \<and> district x = JString ''Lucknow'')
        four_stories"
    using C4_filters_conjoin [where env = india and s = ?s] s
    by (simp add: page_with_fields) metis
  also have "\<dots> = [s_both]"
    by (simp add: four_stories_def s_both_def s_cat_def s_dis_def s_bare_def mk_story_def)
  finally show ?thesis using s by blast
qed

text \<open>
  C5.  Reset never throws, and applying it twice gives the same page as applying it once:
  the filtered stories are the whole collection, \<open>itemsPerPage\<close> is 50, \<open>currentPage\<close> is 1,
  the date inputs are empty, both selects read \<open>All\<close> (or nothing, when the select has no
  such option), and the first 50 stories are rendered.
\<close>

theorem C5_reset_idempotent:
  "resetClicked env (fst (resetClicked env s)) = resetClicked env s
   \<and> snd (resetClicked env s) = None
   \<and> filteredStories (fst (resetClicked env s)) = stories s
   \<and> stories (fst (resetClicked env s)) = stories s
   \<and> itemsPerPage (fst (resetClicked env s)) = 50
   \<and> currentPage (fst (resetClicked env s)) = 1
   \<and> startInput (fst (resetClicked env s)) = []
   \<and> endInput (fst (resetClicked env s)) = []
   \<and> categorySelect (fst (resetClicked env s)) \<in> {[], ''All''}
   \<and> districtSelect (fst (resetClicked env s)) \<in> {[], ''All''}
   \<and> newsContainer (fst (resetClicked env s)) = render env (take 50 (stories s))"
proof -
  let ?r = "s\<lparr>startInput := [], endInput := [],
          categorySelect := select_assign (categoryOptions env) ''All'',
          districtSelect := select_assign (districtOptions s) ''All'',
          itemsSelect := select_assign (itemsOptions env) ''50'',
          itemsPerPage := 50, filteredStories := stories s, currentPage := 1\<rparr>"
  have r: "resetClicked env s = (renderPage env 1 ?r, None)"
    by (rule resetClicked_result)
  have twice: "resetClicked env (renderPage env 1 ?r) = (renderPage env 1 ?r, None)"
    unfolding resetClicked_result [of env "renderPage env 1 ?r"]
    by (simp add: renderPage_def pageItems_def renderPagination_def totalPages_def)
  have first: "pageItems ?r 1 = take 50 (stories s)"
    using pageItems_first [of ?r] by simp
  show ?thesis
    unfolding r fst_conv snd_conv twice
    using first select_assign_All [of "categoryOptions env"]
      select_assign_All [of "districtOptions s"]
    by (simp add: renderPage_def del: insert_iff)
qed

text \<open>
  C6.  With a start date \<open>D\<close> chosen, every story in the result of \<open>applyFilters\<close> has
  \<open>pubDate >= D\<close> in the order of strings, that is, equal to \<open>D\<close> or after it; no story of
  the collection with \<open>pubDate < D\<close> is in the result; and when no other filter is active
  the result is exactly the stories with \<open>pubDate >= D\<close>.
\<close>

theorem C6_start_date_lower_bound:
  assumes "startInput s \<noteq> []" and "applyFilters env s = Inr s'"
  shows "(\<forall>x \<in> set (filteredStories s'). str_ge (pubDate x) (startInput s))
       \<and> (\<forall>x \<in> set (filteredStories s').
            pubDate x = startInput s \<or> str_lt (startInput s) (pubDate x))
       \<and> (\<forall>x \<in> set (stories s).
            str_lt (pubDate x) (startInput s) \<longrightarrow> x \<notin> set (filteredStories s'))
       \<and> (endInput s = [] \<and> categorySelect s \<in> {[], ''All''} \<and>
          districtSelect s \<in> {[], ''All''} \<longrightarrow>
            filteredStories s' = filter (\<lambda>x. str_ge (pubDate x) (startInput s)) (stories s))"
proof -
  let ?P = "selected (startInput s) (end_limit env (endInput s)) (categorySelect s) (districtSelect s)"
  have f: "filteredStories s' = filter ?P (stories s)"
    using applyFilters_Inr [OF assms(2)] by (simp add: renderPage_def)
  have ge: "\<forall>x \<in> set (filteredStories s'). str_ge (pubDate x) (startInput s)"
    using assms(1) by (auto simp: f selected_def)
  then have gt: "\<forall>x \<in> set (filteredStories s').
      pubDate x = startInput s \<or> str_lt (startInput s) (pubDate x)"
    by (simp add: str_ge_iff)
  have lt: "\<forall>x \<in> set (stories s).
      str_lt (pubDate x) (startInput s) \<longrightarrow> x \<notin> set (filteredStories s')"
    using ge by (auto simp: str_ge_def)
  have only: "endInput s = [] \<and> categorySelect s \<in> {[], ''All''} \<and>
      districtSelect s \<in> {[], ''All''} \<longrightarrow>
      filteredStories s' = filter (\<lambda>x. str_ge (pubDate x) (startInput s)) (stories s)"
    unfolding f using assms(1)
    by (auto simp: selected_def end_limit_def intro!: filter_cong)
  from ge gt lt only show ?thesis by blast
qed

theorem C6_witness:
  "\<exists>s'. applyFilters india ((page_with india four_stories)\<lparr>startInput := ''2024-05-02''\<rparr>) = Inr s'
       \<and> filteredStories s' = [s_both, s_dis]"
proof -
  let ?s = "(page_with india four_stories)\<lparr>startInput := ''2024-05-02''\<rparr>"
  obtain s' where s: "applyFilters india ?s = Inr s'"
    by (simp add: applyFilters_no_end page_with_fields)
  have ne: "startInput ?s \<noteq> []" by simp
  have h: "endInput ?s = [] \<and> categorySelect ?s \<in> {[], ''All''} \<and>
      districtSelect ?s \<in> {[], ''All''}"
    by (simp add: page_with_fields)
  from C6_start_date_lower_bound [OF ne s] h
  have "filteredStories s' = filter (\<lambda>x. str_ge (pubDate x) (startInput ?s)) (stories ?s)"
    by blast
  then have "filteredStories s' = filter (\<lambda>x. str_ge (pubDate x) ''2024-05-02'') four_stories"
    by (simp add: page_with_fields)
  also have "\<dots> = [s_both, s_dis]"
    by code_simp
  finally show ?thesis using s by blast
qed

text \<open>
  C7.  The badge class is \<open>badge-\<close> followed by the slug of the category when the category
  is a non-empty string, and of \<open>Uncategorised\<close> when it is absent, \<open>null\<close> or empty; that
  slug is \<open>uncategorised\<close>.  The slug is a function of the category text: it lower-cases
  every character and then replaces every maximal run of white space by one hyphen, so it
  contains no white space, it is the lower-cased text when the text has no white space,
  and a run of white space between two parts gives the two slugs joined by one hyphen.
  \<open>NDA Activity\<close> gives \<open>nda-activity\<close>, and a card of that category has the class
  \<open>badge-nda-activity\<close>.  White space is exactly the code units 9 to 13, 32 and 160 (for
  strings of code units below 256), and a run of all seven of them gives one hyphen; the
  accented capitals lower-case as the letters do, the multiplication sign, the sharp s,
  small letters and digits stay.
\<close>

theorem C7_badge_slug:
  "categoryToSlug ''NDA Activity'' = ''nda-activity''
   \<and> badgeClass (render_card env item) =
       ''badge-'' @ categoryToSlug (or_else (category item) ''Uncategorised'')
   \<and> (\<not> truthy (category item) \<longrightarrow>
        categoryToSlug (or_else (category item) ''Uncategorised'') = ''uncategorised'' \<and>
        badgeClass (render_card env item) = ''badge-uncategorised'')
   \<and> categoryToSlug cat = replace_spaces (map lower_char cat)
   \<and> toLowerCase ''ABCDEFGHIJKLMNOPQRSTUVWXYZ'' = ''abcdefghijklmnopqrstuvwxyz''
   \<and> (\<forall>c \<in> set (categoryToSlug cat). \<not> is_space c)
   \<and> ((\<forall>c \<in> set cat. \<not> is_space c) \<longrightarrow> categoryToSlug cat = map lower_char cat)
   \<and> (w \<noteq> [] \<and> (\<forall>c \<in> set w. is_space c) \<and> (a = [] \<or> \<not> is_space (last a)) \<and>
       (b = [] \<or> \<not> is_space (hd b)) \<longrightarrow>
        categoryToSlug (a @ w @ b) = categoryToSlug a @ ''-'' @ categoryToSlug b)
   \<and> (category item = JString name \<and> name \<noteq> [] \<longrightarrow>
        badgeClass (render_card env item) = ''badge-'' @ categoryToSlug name)
   \<and> (category item = JString ''NDA Activity'' \<longrightarrow>
        badgeClass (render_card env item) = ''badge-nda-activity'')
   \<and> (is_space u \<longleftrightarrow> (of_char u :: nat) \<in> {9, 10, 11, 12, 13, 32, 160})
   \<and> categoryToSlug (''Judicial'' @ [char_of (9 :: nat), char_of (10 :: nat), char_of (11 :: nat),
        char_of (12 :: nat), char_of (13 :: nat), char_of (32 :: nat), char_of (160 :: nat)] @ ''Cases'') =
       ''judicial-cases''
   \<and> toLowerCase [char_of (192 :: nat), char_of (214 :: nat), char_of (215 :: nat),
        char_of (216 :: nat), char_of (222 :: nat), char_of (223 :: nat), CHR ''z'', CHR ''5''] =
       [char_of (224 :: nat), char_of (246 :: nat), char_of (215 :: nat), char_of (248 :: nat),
        char_of (254 :: nat), char_of (223 :: nat), CHR ''z'', CHR ''5'']"
proof -
  have cls: "badgeClass (render_card env item) =
      ''badge-'' @ categoryToSlug (or_else (category item) ''Uncategorised'')"
    by (simp add: render_card_def Let_def)
  have fb: "\<not> truthy (category item) \<longrightarrow>
      categoryToSlug (or_else (category item) ''Uncategorised'') = ''uncategorised'' \<and>
      badgeClass (render_card env item) = ''badge-uncategorised''"
    by (simp add: cls or_else_falsy slug_fallback)
  have df: "categoryToSlug cat = replace_spaces (map lower_char cat)"
    by (simp add: categoryToSlug_def toLowerCase_def)
  have ns: "\<forall>c \<in> set (categoryToSlug cat). \<not> is_space c"
    unfolding categoryToSlug_def by (rule replace_spaces_no_space)
  have lc: "(\<forall>c \<in> set cat. \<not> is_space c) \<longrightarrow> categoryToSlug cat = map lower_char cat"
    by (simp add: categoryToSlug_def toLowerCase_def replace_spaces_id is_space_lower)
  have run: "w \<noteq> [] \<and> (\<forall>c \<in> set w. is_space c) \<and> (a = [] \<or> \<not> is_space (last a)) \<and>
      (b = [] \<or> \<not> is_space (hd b)) \<longrightarrow>
      categoryToSlug (a @ w @ b) = categoryToSlug a @ ''-'' @ categoryToSlug b"
    using categoryToSlug_append [of w a b] by blast
  have pr: "category item = JString name \<and> name \<noteq> [] \<longrightarrow>
      badgeClass (render_card env item) = ''badge-'' @ categoryToSlug name"
    by (simp add: cls)
  have nda: "category item = JString ''NDA Activity'' \<longrightarrow>
      badgeClass (render_card env item) = ''badge-nda-activity''"
    by (simp add: cls slug_nda)
  have sp: "is_space u \<longleftrightarrow> (of_char u :: nat) \<in> {9, 10, 11, 12, 13, 32, 160}"
    by (simp only: is_space_def)
  show ?thesis
    by (intro conjI) (fact slug_nda, fact cls, fact fb, fact df, fact lower_alphabet, fact ns,
      fact lc, fact run, fact pr, fact nda, fact sp, fact slug_all_spaces, fact lower_accented)
qed

theorem C7_witness:
  "badgeClass (render_card india s_bare) = ''badge-uncategorised''
   \<and> categoryToSlug (''Judicial'' @ ''  '' @ ''cases'') = ''judicial-cases''
   \<and> badgeClass (render_card india s_dis) = ''badge-nda-activity''
   \<and> badgeClass (render_card india s_both) = ''badge-governance-issues''"
proof -
  have h1: "\<not> truthy (category s_bare)"
    by (simp add: s_bare_def mk_story_def)
  have h2: "''  '' \<noteq> [] \<and> (\<forall>c \<in> set ''  ''. is_space c) \<and>
      (''Judicial'' = [] \<or> \<not> is_space (last ''Judicial'')) \<and>
      (''cases'' = [] \<or> \<not> is_space (hd ''cases''))"
    by (simp add: is_space_def)
  have e: "categoryToSlug ''Judicial'' = ''judicial''" "categoryToSlug ''cases'' = ''cases''"
    "categoryToSlug ''Governance issues'' = ''governance-issues''"
    by code_simp+
  from C7_badge_slug [where env = india and item = s_bare and w = "''  ''"
      and a = "''Judicial''" and b = "''cases''"] h1 h2
  have 1: "badgeClass (render_card india s_bare) = ''badge-uncategorised'' \<and>
      categoryToSlug (''Judicial'' @ ''  '' @ ''cases'') =
      categoryToSlug ''Judicial'' @ ''-'' @ categoryToSlug ''cases''"
    by blast
  have h3: "category s_dis = JString ''NDA Activity''"
    by (simp add: s_dis_def mk_story_def)
  from C7_badge_slug [where env = india and item = s_dis] h3
  have 2: "badgeClass (render_card india s_dis) = ''badge-nda-activity''"
    by blast
  have h4: "category s_both = JString ''Governance issues'' \<and> ''Governance issues'' \<noteq> []"
    by (simp add: s_both_def mk_story_def)
  from C7_badge_slug [where env = india and item = s_both and name = "''Governance issues''"] h4
  have 3: "badgeClass (render_card india s_both) = ''badge-'' @ categoryToSlug ''Governance issues''"
    by blast
  from 1 2 3 show ?thesis by (simp add: e)
qed

text \<open>
  C8 (as amended).  \<open>render\<close> has no failing case: a non-empty list gives one card per
  story, whatever the optional fields hold, and an empty list gives the empty-state
  paragraph.  A story whose category is absent, \<open>null\<close> or empty gets the badge class
  \<open>badge-uncategorised\<close>.  The district part of the meta line is the string conversion of
  the district field: the empty text for an empty district, \<open>undefined\<close> for an absent one
  and \<open>null\<close> for \<open>null\<close>; there is no fallback label for it.
\<close>

theorem C8_render_tolerates_missing:
  "(list \<noteq> [] \<longrightarrow>
      render env list = Cards (map (render_card env) list) \<and>
      (\<exists>cards. render env list = Cards cards \<and> length cards = length list))
   \<and> (list = [] \<longrightarrow>
      render env list = Paragraph ''No news articles match the selected filters.'')
   \<and> (\<not> truthy (category item) \<longrightarrow>
      badgeClass (render_card env item) = ''badge-uncategorised'')
   \<and> metaDistrict (render_card env item) =
       (case district item of JUndefined \<Rightarrow> ''undefined'' | JNull \<Rightarrow> ''null''
        | JString d \<Rightarrow> d)
   \<and> (district item = JString [] \<longrightarrow> metaDistrict (render_card env item) = [])"
proof -
  have cls: "\<not> truthy (category item) \<longrightarrow>
      badgeClass (render_card env item) = ''badge-uncategorised''"
    by (simp add: render_card_def Let_def or_else_falsy slug_fallback)
  have md: "metaDistrict (render_card env item) =
      (case district item of JUndefined \<Rightarrow> ''undefined'' | JNull \<Rightarrow> ''null''
       | JString d \<Rightarrow> d)"
    by (cases "district item") (simp_all add: render_card_def Let_def)
  have me: "district item = JString [] \<longrightarrow> metaDistrict (render_card env item) = []"
    by (simp add: md)
  have r1: "list \<noteq> [] \<longrightarrow>
      render env list = Cards (map (render_card env) list) \<and>
      (\<exists>cards. render env list = Cards cards \<and> length cards = length list)"
    by (simp add: render_def)
  have r2: "list = [] \<longrightarrow>
      render env list = Paragraph ''No news articles match the selected filters.''"
    by (simp add: render_def)
  from r1 r2 cls md me show ?thesis by blast
qed

theorem C8_witness:
  "render india [s_absent, s_empty] =
     Cards [render_card india s_absent, render_card india s_empty]
   \<and> badgeClass (render_card india s_absent) = ''badge-uncategorised''
   \<and> badgeClass (render_card india s_empty) = ''badge-uncategorised''
   \<and> metaDistrict (render_card india s_absent) = ''undefined''
   \<and> metaDistrict (render_card india s_empty) = []"
proof -
  have a: "\<not> truthy (category s_absent)" "district s_absent = JUndefined"
    by (simp_all add: s_absent_def mk_story_def)
  have e: "\<not> truthy (category s_empty)" "district s_empty = JString []"
    by (simp_all add: s_empty_def mk_story_def)
  have n: "[s_absent, s_empty] \<noteq> []" by simp
  from C8_render_tolerates_missing [where env = india and list = "[s_absent, s_empty]"
      and item = s_absent] a n
  have 1: "render india [s_absent, s_empty] = Cards (map (render_card india) [s_absent, s_empty])
      \<and> badgeClass (render_card india s_absent) = ''badge-uncategorised''
      \<and> metaDistrict (render_card india s_absent) = ''undefined''"
    by simp
  from C8_render_tolerates_missing [where env = india and list = "[s_absent, s_empty]"
      and item = s_empty] e
  have 2: "badgeClass (render_card india s_empty) = ''badge-uncategorised''
      \<and> metaDistrict (render_card india s_empty) = []"
    by simp
  from 1 2 show ?thesis by simp
qed

text \<open>
  C8 as stated fails.  For a story without category and district the badge class falls
  back to \<open>badge-uncategorised\<close>, but the badge label is not the fallback text
  \<open>Uncategorised\<close>: it reads \<open>undefined\<close>, \<open>null\<close> or nothing, and so does the district part
  of the meta line.
\<close>

theorem C8_counterexample:
  "badgeClass (render_card india s_absent) = ''badge-uncategorised''
   \<and> or_else (category s_absent) ''Uncategorised'' = ''Uncategorised''
   \<and> badgeLabel (render_card india s_absent) = ''undefined''
   \<and> badgeLabel (render_card india s_null) = ''null''
   \<and> badgeLabel (render_card india s_empty) = []
   \<and> metaDistrict (render_card india s_absent) = ''undefined''
   \<and> metaDistrict (render_card india s_null) = ''null''
   \<and> metaDistrict (render_card india s_empty) = []"
  by (simp add: render_card_def Let_def s_absent_def s_null_def s_empty_def mk_story_def
      slug_fallback)

text \<open>
  C9.  Whenever an event changes the filtered stories or \<open>itemsPerPage\<close>, \<open>currentPage\<close> is
  1 afterwards.  After every listener other than a page button that finishes without
  throwing (a filter change, an items-per-page change, today, reset), \<open>currentPage\<close> is 1
  and the container and the pagination bar show the first page of the filtered stories
  as they now are.  An items-per-page change sets \<open>currentPage\<close> to 1 and \<open>itemsPerPage\<close> to
  the parsed value, which is never 0, even when the filter pass then throws; when it
  finishes, the filtered stories are those that the input elements select.  A page
  button changes neither the filtered stories nor \<open>itemsPerPage\<close>.
\<close>

theorem C9_page_reset:
  assumes "dispatch env e s = (s', err)"
  shows "(filteredStories s' \<noteq> filteredStories s \<or> itemsPerPage s' \<noteq> itemsPerPage s \<longrightarrow>
            currentPage s' = 1)
       \<and> (err = None \<and> (\<forall>i. e \<noteq> PageClick i) \<longrightarrow>
            currentPage s' = 1 \<and> newsContainer s' = render env (pageItems s' 1) \<and>
            pagination s' = renderPagination s' \<and>
            (1 \<le> itemsPerPage s' \<longrightarrow>
               pageItems s' 1 = take (nat (itemsPerPage s')) (filteredStories s')))
       \<and> (\<forall>v. e = ItemsChange v \<longrightarrow>
            currentPage s' = 1 \<and> itemsPerPage s' = parseInt_or_50 v \<and> itemsPerPage s' \<noteq> 0 \<and>
            (err = None \<longrightarrow>
               filteredStories s' =
                 filter (selected (startInput s) (end_limit env (endInput s)) (categorySelect s)
                   (districtSelect s)) (stories s)))
       \<and> (\<forall>i. e = PageClick i \<longrightarrow>
            filteredStories s' = filteredStories s \<and> itemsPerPage s' = itemsPerPage s)"
proof -
  have first: "1 \<le> itemsPerPage s' \<longrightarrow>
      pageItems s' 1 = take (nat (itemsPerPage s')) (filteredStories s')"
    using pageItems_first [of s'] by blast
  show ?thesis
  proof (cases e)
    case (StartChange v)
    with assms have r: "run_filters env (s\<lparr>startInput := v\<rparr>) = (s', err)" by simp
    from run_filters_page [OF r] first StartChange show ?thesis by auto
  next
    case (EndChange v)
    with assms have r: "run_filters env (s\<lparr>endInput := v\<rparr>) = (s', err)" by simp
    from run_filters_page [OF r] first EndChange show ?thesis by auto
  next
    case (CategoryChange v)
    with assms have r: "run_filters env (s\<lparr>categorySelect := v\<rparr>) = (s', err)" by simp
    from run_filters_page [OF r] first CategoryChange show ?thesis by auto
  next
    case (DistrictChange v)
    with assms have r: "run_filters env (s\<lparr>districtSelect := v\<rparr>) = (s', err)" by simp
    from run_filters_page [OF r] first DistrictChange show ?thesis by auto
  next
    case (ItemsChange v)
    let ?t = "s\<lparr>itemsSelect := v, itemsPerPage := parseInt_or_50 v, currentPage := 1\<rparr>"
    from ItemsChange assms have r: "run_filters env ?t = (s', err)"
      by (simp add: itemsChanged_def)
    have c: "currentPage s' = 1"
      using run_filters_page(3,4) [OF r] by (cases "err = None") auto
    have f: "err = None \<longrightarrow>
        filteredStories s' =
          filter (selected (startInput s) (end_limit env (endInput s)) (categorySelect s)
            (districtSelect s)) (stories s)"
    proof
      assume "err = None"
      with run_filters_cases [OF r] have "applyFilters env ?t = Inr s'" by simp
      from applyFilters_Inr [OF this] show "filteredStories s' =
          filter (selected (startInput s) (end_limit env (endInput s)) (categorySelect s)
            (districtSelect s)) (stories s)"
        by (simp add: renderPage_fields)
    qed
    from run_filters_page [OF r] first ItemsChange c f parseInt_or_50_nonzero [of v]
    show ?thesis by auto
  next
    case (TodayClick now)
    show ?thesis
    proof (cases "todayStr now")
      case (Inl x)
      with TodayClick assms show ?thesis by (auto simp: todayClicked_def)
    next
      case (Inr today)
      with TodayClick assms first show ?thesis
        by (auto simp: todayClicked_def Let_def renderPage_fields)
    qed
  next
    case ResetClick
    with assms first show ?thesis
      by (auto simp: resetClicked_result renderPage_fields)
  next
    case (PageClick i)
    with assms show ?thesis
      by (auto simp: pageClicked_def renderPage_fields split: if_splits)
  qed
qed

theorem C9_witness:
  "currentPage (fst (dispatch india (PageClick 2) (page_with india (many_stories 125)))) = 2
   \<and> (\<exists>s'. dispatch india (ItemsChange ''25'')
              (fst (dispatch india (PageClick 2) (page_with india (many_stories 125)))) = (s', None)
          \<and> currentPage s' = 1 \<and> itemsPerPage s' = 25
          \<and> pageItems s' 1 = take 25 (filteredStories s'))"
proof -
  define p where "p = fst (dispatch india (PageClick 2) (page_with india (many_stories 125)))"
  have p: "p = renderPage india 2 ((page_with india (many_stories 125))\<lparr>currentPage := 2\<rparr>)"
    by (simp add: p_def second_page)
  have c2: "currentPage p = 2" by (simp add: p renderPage_fields)
  have e: "endInput p = []" by (simp add: p renderPage_def page_with_fields)
  define t where "t = p\<lparr>itemsSelect := ''25'', itemsPerPage := parseInt_or_50 ''25'',
    currentPage := 1\<rparr>"
  have "endInput t = []" by (simp add: t_def e)
  then obtain s' where a: "applyFilters india t = Inr s'"
    using applyFilters_no_end [of t india] by simp
  then have d: "dispatch india (ItemsChange ''25'') p = (s', None)"
    by (simp add: itemsChanged_def run_filters_def t_def)
  have n: "\<forall>i. ItemsChange ''25'' \<noteq> PageClick i" by simp
  from C9_page_reset [OF d] n parseInt_25
  have "currentPage s' = 1 \<and> itemsPerPage s' = 25 \<and>
      pageItems s' 1 = take 25 (filteredStories s')"
    by auto
  with c2 d show ?thesis unfolding p_def by blast
qed

text \<open>
  C10.  On every page that can be reached from the loaded data, the story collection is
  still the loaded data, the filtered stories are a subsequence of it in the same order,
  and the container shows the rendering of a contiguous slice of the filtered stories;
  and every further event, whether its listener finishes or throws, leaves the story
  collection as it is and the filtered stories a subsequence of it.
\<close>

theorem C10_stories_fixed_and_filtered_sublist:
  assumes "reachable env data s"
  shows "stories s = data
       \<and> subseq (filteredStories s) data
       \<and> (\<exists>p. sublist p (filteredStories s) \<and> newsContainer s = render env p)
       \<and> (\<forall>e s' err. dispatch env e s = (s', err) \<longrightarrow>
            stories s' = stories s \<and> subseq (filteredStories s') (stories s'))"
proof -
  have ok: "page_ok env data s"
    using assms
  proof (induction rule: reachable.induct)
    case (start cat0 dist0 items0)
    show ?case by (rule loaded_ok)
  next
    case (step s e s' err)
    then show ?case using dispatch_ok by blast
  qed
  have "\<forall>e s' err. dispatch env e s = (s', err) \<longrightarrow>
      stories s' = stories s \<and> subseq (filteredStories s') (stories s')"
  proof (intro allI impI)
    fix e s' err
    assume "dispatch env e s = (s', err)"
    then have "page_ok env data s'" using ok by (rule dispatch_ok)
    with ok show "stories s' = stories s \<and> subseq (filteredStories s') (stories s')"
      by (simp add: page_ok_def)
  qed
  with ok show ?thesis unfolding page_ok_def by blast
qed

theorem C10_witness:
  "stories (fst (dispatch india (StartChange ''2024-05-02'') (page_with india two_days))) = two_days
   \<and> subseq (filteredStories (fst (dispatch india (StartChange ''2024-05-02'')
         (page_with india two_days)))) two_days"
proof -
  have r: "reachable india two_days (page_with india two_days)"
    unfolding page_with_def by (rule reachable.start)
  have "reachable india two_days
      (fst (dispatch india (StartChange ''2024-05-02'') (page_with india two_days)))"
    by (rule reachable.step [OF r]) (rule surjective_pairing)
  from C10_stories_fixed_and_filtered_sublist [OF this] show ?thesis by blast
qed

end
